theory Spec2Isabelle
  imports Main "HOL-Library.Sublist"
begin

section \<open>Strings\<close>

text \<open>
  A JavaScript string is modelled as a \<^typ>\<open>string\<close>: the list of its code units, for
  texts whose code units are all below 256. Of the code units that \<^verbatim>\<open>\s\<close> and
  \<^verbatim>\<open>String.prototype.trim\<close> treat as white space, these seven are below 256:
  TAB, LF, VT, FF, CR, SPACE and NO-BREAK SPACE.
\<close>

definition is_ws :: "char \<Rightarrow> bool" where
  "is_ws c = (c \<in> set [CHR 0x09, CHR 0x0A, CHR 0x0B, CHR 0x0C, CHR 0x0D, CHR 0x20, CHR 0xA0])"

text \<open>\<^verbatim>\<open>s.trim()\<close>\<close>

definition trim :: "string \<Rightarrow> string" where
  "trim s = rev (dropWhile is_ws (rev (dropWhile is_ws s)))"

text \<open>\<^verbatim>\<open>s.includes(pat)\<close>\<close>

fun str_includes :: "string \<Rightarrow> string \<Rightarrow> bool" where
  "str_includes [] pat = (pat = [])"
| "str_includes (c # cs) pat = (prefix pat (c # cs) \<or> str_includes cs pat)"

text \<open>\<^verbatim>\<open>s.replace(pat, rep)\<close> with a string pattern: only the first occurrence is replaced.\<close>

fun replace_first :: "string \<Rightarrow> string \<Rightarrow> string \<Rightarrow> string" where
  "replace_first pat rep [] = (if pat = [] then rep else [])"
| "replace_first pat rep (c # cs) =
     (if prefix pat (c # cs) then rep @ drop (length pat) (c # cs)
      else c # replace_first pat rep cs)"

text \<open>\<^verbatim>\<open>s.split('\n')\<close>: never empty, the last element is what follows the last newline.\<close>

fun split_nl :: "string \<Rightarrow> string list" where
  "split_nl [] = [[]]"
| "split_nl (c # cs) =
     (if c = CHR 0x0A then [] # split_nl cs
      else (case split_nl cs of l # ls \<Rightarrow> (c # l) # ls | [] \<Rightarrow> [[c]]))"

text \<open>\<^verbatim>\<open>parts.join(sep)\<close>\<close>

fun join :: "string \<Rightarrow> string list \<Rightarrow> string" where
  "join sep [] = []"
| "join sep [p] = p"
| "join sep (p # q # ps) = p @ sep @ join sep (q # ps)"

text \<open>Decimal rendering of an array length inside a template literal.\<close>

fun show_nat :: "nat \<Rightarrow> string" where
  "show_nat n =
     (if n < 10 then [''0123456789'' ! n]
      else show_nat (n div 10) @ [''0123456789'' ! (n mod 10)])"

declare show_nat.simps [simp del]

section \<open>The stream demultiplexer: \<^verbatim>\<open>OpenRouterService.streamChat\<close>\<close>

text \<open>
  The model covers the read loop of \<^verbatim>\<open>streamChat\<close> (from \<^verbatim>\<open>response.body.getReader()\<close>
  to the end of the generator). The transport is the list of text chunks that
  \<^verbatim>\<open>reader.read()\<close> delivers, followed by how reading ends: \<^verbatim>\<open>done\<close>, or a rejected
  read (an \<^verbatim>\<open>AbortError\<close> when the caller's \<^verbatim>\<open>AbortSignal\<close> fires, any other error for a
  transport failure).

  \<^verbatim>\<open>JSON.parse\<close> belongs to the platform, so the decoding of one payload is a parameter
  \<open>dec\<close>: \<open>dec p = None\<close> when \<^verbatim>\<open>JSON.parse(p)\<close> or \<^verbatim>\<open>json.choices[0]\<close> throws, and otherwise
  \<open>dec p\<close> gives the two fields \<^verbatim>\<open>choice?.delta?.reasoning\<close> and \<^verbatim>\<open>choice?.delta?.content\<close>
  (\<open>None\<close> for a field that is absent).
\<close>

record delta =
  reasoning :: "string option"
  content :: "string option"

type_synonym decoder = "string \<Rightarrow> delta option"

datatype js_error = AbortError | OtherError

datatype read_end = ReadDone | ReadRejected js_error

text \<open>
  What the generator yields. Each token is tagged with the statement that yields it;
  \<open>token_text\<close> is the string the consumer receives.
\<close>

datatype token = OpenThink | CloseThink | ReasoningText string | AnswerText string

fun token_text :: "token \<Rightarrow> string" where
  "token_text OpenThink = ''<think>''"
| "token_text CloseThink = ''</think>''"
| "token_text (ReasoningText r) = r"
| "token_text (AnswerText c) = c"

text \<open>
  How the generator ends: the \<^verbatim>\<open>return\<close> at the \<^verbatim>\<open>[DONE]\<close> record, the end of the
  function body after the loop, or the error re-thrown by the \<^verbatim>\<open>catch\<close> block.
\<close>

datatype outcome = ReturnedAtDone | ReturnedAtEnd | Threw js_error

text \<open>A string is truthy when it is present and not empty.\<close>

definition truthy :: "string option \<Rightarrow> bool" where
  "truthy x = (case x of None \<Rightarrow> False | Some s \<Rightarrow> s \<noteq> [])"

text \<open>The body of the \<^verbatim>\<open>try\<close> block after decoding: the tokens and the new \<^verbatim>\<open>isReasoning\<close>.\<close>

definition emit :: "delta \<Rightarrow> bool \<Rightarrow> token list \<times> bool" where
  "emit d isReasoning =
     (let (t1, r1) =
            (if truthy (reasoning d)
             then ((if \<not> isReasoning then [OpenThink] else []) @ [ReasoningText (the (reasoning d))], True)
             else ([], isReasoning));
          (t2, r2) =
            (if truthy (content d)
             then ((if r1 then [CloseThink] else []) @ [AnswerText (the (content d))], False)
             else ([], r1))
      in (t1 @ t2, r2))"

text \<open>One iteration of \<^verbatim>\<open>for (const line of lines)\<close>; \<open>None\<close> is the \<^verbatim>\<open>return\<close> at \<^verbatim>\<open>[DONE]\<close>.\<close>

definition handle_line :: "decoder \<Rightarrow> bool \<Rightarrow> string \<Rightarrow> (token list \<times> bool) option" where
  "handle_line dec isReasoning line =
     (let trimmed = trim line in
      if trimmed = [] \<or> \<not> prefix ''data: '' trimmed then Some ([], isReasoning)
      else let dataStr = replace_first ''data: '' [] trimmed in
        if dataStr = ''[DONE]'' then None
        else (case dec dataStr of
                None \<Rightarrow> Some ([], isReasoning)
              | Some d \<Rightarrow> Some (emit d isReasoning)))"

text \<open>The whole \<^verbatim>\<open>for\<close> loop: tokens, \<^verbatim>\<open>isReasoning\<close>, and whether it returned.\<close>

fun process_lines :: "decoder \<Rightarrow> bool \<Rightarrow> string list \<Rightarrow> token list \<times> bool \<times> bool" where
  "process_lines dec isReasoning [] = ([], isReasoning, False)"
| "process_lines dec isReasoning (line # lines) =
     (case handle_line dec isReasoning line of
        None \<Rightarrow> ([], isReasoning, True)
      | Some (ts, r) \<Rightarrow>
          (case process_lines dec r lines of (ts', r', returned) \<Rightarrow> (ts @ ts', r', returned)))"

text \<open>The \<^verbatim>\<open>while (true)\<close> loop with its state \<^verbatim>\<open>buffer\<close> and \<^verbatim>\<open>isReasoning\<close>.\<close>

fun read_loop :: "decoder \<Rightarrow> string \<Rightarrow> bool \<Rightarrow> string list \<Rightarrow> read_end \<Rightarrow> token list \<times> outcome" where
  "read_loop dec buffer isReasoning [] ReadDone =
     (if isReasoning then [CloseThink] else [], ReturnedAtEnd)"
| "read_loop dec buffer isReasoning [] (ReadRejected e) = ([], Threw e)"
| "read_loop dec buffer isReasoning (v # vs) fin =
     (let lines = split_nl (buffer @ v) in
      case process_lines dec isReasoning (butlast lines) of
        (ts, r, returned) \<Rightarrow>
          if returned then (ts, ReturnedAtDone)
          else (case read_loop dec (last lines) r vs fin of (ts', out) \<Rightarrow> (ts @ ts', out)))"

definition streamChat :: "decoder \<Rightarrow> string list \<Rightarrow> read_end \<Rightarrow> token list \<times> outcome" where
  "streamChat dec chunks fin = read_loop dec [] False chunks fin"

text \<open>
  The consumer of the generator reassembles the text with \<^verbatim>\<open>fullContent += chunk\<close>, and
  that text is the \<^verbatim>\<open>content\<close> that the parser receives.
\<close>

definition fullContent :: "token list \<Rightarrow> string" where
  "fullContent ts = concat (map token_text ts)"

text \<open>
  Whether a text ends inside an unterminated reasoning span, read from left to right the
  way the parser reads it: outside a span the next \<^verbatim>\<open><think>\<close> opens one, inside a span the
  next \<^verbatim>\<open></think>\<close> closes it. The flag tells whether the text starts inside a span.
\<close>

fun unterminated_span :: "bool \<Rightarrow> string \<Rightarrow> bool" where
  "unterminated_span inside [] = inside"
| "unterminated_span inside (c # cs) =
     (if inside then
        (if prefix ''</think>'' (c # cs) then unterminated_span False (drop 7 cs)
         else unterminated_span True cs)
      else
        (if prefix ''<think>'' (c # cs) then unterminated_span True (drop 6 cs)
         else unterminated_span False cs))"

text \<open>
  The answer text that the generator yielded after its last closing marker (all of its
  answer text when it yielded no closing marker): the text of the answer deltas only, the
  markers and the reasoning deltas left out.
\<close>

fun answer_delta :: "token \<Rightarrow> string" where
  "answer_delta (AnswerText c) = c"
| "answer_delta OpenThink = []"
| "answer_delta CloseThink = []"
| "answer_delta (ReasoningText r) = []"

definition answer_tail :: "token list \<Rightarrow> string" where
  "answer_tail ts =
     concat (map answer_delta (rev (takeWhile (\<lambda>t. t \<noteq> CloseThink) (rev ts))))"

text \<open>
  For the proofs: \<^verbatim>\<open>isReasoning\<close> replayed from a token sequence, and \<open>None\<close> when a token is
  yielded in the wrong state (an opening marker or an answer delta inside a span, a closing
  marker or a reasoning delta outside).
\<close>

fun tag_replay :: "bool \<Rightarrow> token list \<Rightarrow> bool option" where
  "tag_replay b [] = Some b"
| "tag_replay b (OpenThink # ts) = (if b then None else tag_replay True ts)"
| "tag_replay b (CloseThink # ts) = (if b then tag_replay False ts else None)"
| "tag_replay b (ReasoningText r # ts) = (if b then tag_replay True ts else None)"
| "tag_replay b (AnswerText c # ts) = (if b then None else tag_replay False ts)"

text \<open>A record whose payload cannot be decoded.\<close>

definition malformed_record :: "decoder \<Rightarrow> string \<Rightarrow> bool" where
  "malformed_record dec line =
     (let trimmed = trim line; dataStr = replace_first ''data: '' [] trimmed in
      prefix ''data: '' trimmed \<and> dataStr \<noteq> ''[DONE]'' \<and> dec dataStr = None)"

text \<open>
  What the \<^verbatim>\<open>for\<close> loop does with a line: it skips it (a blank line, a line that is not a
  \<^verbatim>\<open>data: \<close> record, a record that cannot be decoded), it returns (the \<^verbatim>\<open>[DONE]\<close> record), or
  it handles the event that the record carries.
\<close>

datatype line_kind = Skipped | Done | Event delta

definition classify_line :: "decoder \<Rightarrow> string \<Rightarrow> line_kind" where
  "classify_line dec line =
     (let trimmed = trim line in
      if trimmed = [] \<or> \<not> prefix ''data: '' trimmed then Skipped
      else let dataStr = replace_first ''data: '' [] trimmed in
        if dataStr = ''[DONE]'' then Done
        else (case dec dataStr of None \<Rightarrow> Skipped | Some d \<Rightarrow> Event d))"

text \<open>The events of a sequence of lines, up to the \<^verbatim>\<open>[DONE]\<close> record if there is one.\<close>

fun stream_events :: "decoder \<Rightarrow> string list \<Rightarrow> delta list" where
  "stream_events dec [] = []"
| "stream_events dec (line # lines) =
     (case classify_line dec line of
        Skipped \<Rightarrow> stream_events dec lines
      | Done \<Rightarrow> []
      | Event d \<Rightarrow> d # stream_events dec lines)"

text \<open>The text of a delta field: nothing for an absent field.\<close>

definition delta_text :: "string option \<Rightarrow> string" where
  "delta_text x = (case x of None \<Rightarrow> [] | Some s \<Rightarrow> s)"

text \<open>The tokens of a sequence of events, and \<^verbatim>\<open>isReasoning\<close> after them.\<close>

fun emit_events :: "bool \<Rightarrow> delta list \<Rightarrow> token list \<times> bool" where
  "emit_events isReasoning [] = ([], isReasoning)"
| "emit_events isReasoning (d # ds) =
     (case emit d isReasoning of
        (ts, r) \<Rightarrow> (case emit_events r ds of (ts', r') \<Rightarrow> (ts @ ts', r')))"

text \<open>
  A decoder for the examples: it agrees with \<^verbatim>\<open>JSON.parse\<close> on the payloads it knows
  and rejects every other payload.
\<close>

definition example_dec :: decoder where
  \<open>example_dec =
     [''{"choices":[{"delta":{"reasoning":"hm"}}]}'' \<mapsto> \<lparr>reasoning = Some ''hm'', content = None\<rparr>,
      ''{"choices":[{"delta":{"reasoning":" so"}}]}'' \<mapsto> \<lparr>reasoning = Some '' so'', content = None\<rparr>,
      ''{"choices":[{"delta":{"content":"ok"}}]}'' \<mapsto> \<lparr>reasoning = None, content = Some ''ok''\<rparr>,
      ''{"choices":[{"delta":{"content":"(https://a.b/c)"}}]}'' \<mapsto>
        \<lparr>reasoning = None, content = Some ''(https://a.b/c)''\<rparr>,
      ''{"choices":[{"delta":{"content":"see <think> tags"}}]}'' \<mapsto>
        \<lparr>reasoning = None, content = Some ''see <think> tags''\<rparr>,
      ''{"choices":[{"delta":{"content":"x<|start|>y"}}]}'' \<mapsto>
        \<lparr>reasoning = None, content = Some ''x<|start|>y''\<rparr>,
      ''{"choices":[{"delta":{"content":"f(x) = 1"}}]}'' \<mapsto>
        \<lparr>reasoning = None, content = Some ''f(x) = 1''\<rparr>,
      ''{"choices":[{"delta":{"reasoning":"a</think>b"}}]}'' \<mapsto>
        \<lparr>reasoning = Some ''a</think>b'', content = None\<rparr>,
      ''{"choices":[{"delta":{"content":"","reasoning":"hm"}}]}'' \<mapsto>
        \<lparr>reasoning = Some ''hm'', content = Some []\<rparr>]\<close>

section \<open>The content parser: the \<^verbatim>\<open>useMemo\<close> callback of \<^verbatim>\<open>MarkdownRenderer\<close>\<close>

subsection \<open>Regular expressions\<close>

text \<open>
  Each regular expression of the source is modelled by a matcher: a function that, given
  the text from some position on, tells whether the expression matches at that position,
  and then returns the string that the source uses (capture group 1, or the whole match
  where the expression has no group) and the length of the match. None of the
  expressions looks behind, so a match depends only on the text from the position on.
  All quantifiers of the first six expressions range over character classes that exclude
  the character that must follow, so backtracking never finds a second way to match and
  the greedy choice below is the only one.
\<close>

type_synonym matcher = "string \<Rightarrow> (string \<times> nat) option"

text \<open>A literal piece of a pattern: the rest of the text after it.\<close>

definition lit :: "string \<Rightarrow> string \<Rightarrow> string option" where
  "lit p s = (if prefix p s then Some (drop (length p) s) else None)"

text \<open>
  \<^verbatim>\<open>text.replace(re, ...)\<close> with a global expression: matches are searched from left to
  right, and the search resumes at the end of each match (one character further when a
  match is empty). \<open>f\<close> maps the captured string to the replacement. None of the
  expressions matches the empty text, so there is nothing to do at the end of the text.
\<close>

fun replace_g :: "matcher \<Rightarrow> (string \<Rightarrow> string) \<Rightarrow> string \<Rightarrow> string" where
  "replace_g m f [] = []"
| "replace_g m f (c # cs) =
     (case m (c # cs) of
        Some (g, n) \<Rightarrow> f g @ replace_g m f (drop (n - 1) cs)
      | None \<Rightarrow> c # replace_g m f cs)"

text \<open>
  The captured strings of all matches, in order: what the replacement callbacks push,
  and what a \<^verbatim>\<open>while ((match = re.exec(text)) !== null)\<close> loop visits.
\<close>

fun matches_g :: "matcher \<Rightarrow> string \<Rightarrow> string list" where
  "matches_g m [] = []"
| "matches_g m (c # cs) =
     (case m (c # cs) of
        Some (g, n) \<Rightarrow> g # matches_g m (drop (n - 1) cs)
      | None \<Rightarrow> matches_g m cs)"

text \<open>The text before the first occurrence of \<open>pat\<close>, or the whole text when there is none.\<close>

fun take_until :: "string \<Rightarrow> string \<Rightarrow> string" where
  "take_until pat [] = []"
| "take_until pat (c # cs) = (if prefix pat (c # cs) then [] else c # take_until pat cs)"

text \<open>\<^verbatim>\<open>[^\s\)]\<close>\<close>

definition cite_char :: "char \<Rightarrow> bool" where
  "cite_char c = (\<not> is_ws c \<and> c \<noteq> CHR '')'')"

text \<open>\<^verbatim>\<open>/\(\s*(https?:\/\/[^\s\)]+)\s*\)/g\<close>\<close>

definition citationLinkRegex :: matcher where
  "citationLinkRegex s =
     (case lit ''('' s of None \<Rightarrow> None | Some s1 \<Rightarrow>
      let g = dropWhile is_ws s1 in
      case lit ''http'' g of None \<Rightarrow> None | Some s2 \<Rightarrow>
      let s3 = (case lit ''s'' s2 of Some t \<Rightarrow> t | None \<Rightarrow> s2) in
      case lit ''://'' s3 of None \<Rightarrow> None | Some s4 \<Rightarrow>
      let s5 = dropWhile cite_char s4 in
      if takeWhile cite_char s4 = [] then None
      else case lit '')'' (dropWhile is_ws s5) of None \<Rightarrow> None
           | Some rest \<Rightarrow> Some (take (length g - length s5) g, length s - length rest))"

text \<open>\<^verbatim>\<open>/\(\s*(\[[^\]]+\]\([^\)]+\))\s*\)/g\<close>\<close>

definition citationMarkdownRegex :: matcher where
  "citationMarkdownRegex s =
     (case lit ''('' s of None \<Rightarrow> None | Some s1 \<Rightarrow>
      let g = dropWhile is_ws s1 in
      case lit ''['' g of None \<Rightarrow> None | Some s2 \<Rightarrow>
      if takeWhile (\<lambda>c. c \<noteq> CHR '']'') s2 = [] then None
      else case lit '']('' (dropWhile (\<lambda>c. c \<noteq> CHR '']'') s2) of None \<Rightarrow> None | Some s3 \<Rightarrow>
      if takeWhile (\<lambda>c. c \<noteq> CHR '')'') s3 = [] then None
      else case lit '')'' (dropWhile (\<lambda>c. c \<noteq> CHR '')'') s3) of None \<Rightarrow> None | Some s4 \<Rightarrow>
      case lit '')'' (dropWhile is_ws s4) of None \<Rightarrow> None
      | Some rest \<Rightarrow> Some (take (length g - length s4) g, length s - length rest))"

text \<open>
  \<^verbatim>\<open>/<think>([\s\S]*?)(?:<\/think>|$)/g\<close>: the lazy quantifier stops at the first
  \<^verbatim>\<open></think>\<close>, or at the end of the text when there is none.
\<close>

definition thoughtRegex :: matcher where
  "thoughtRegex s =
     (case lit ''<think>'' s of None \<Rightarrow> None | Some s1 \<Rightarrow>
      let g = take_until ''</think>'' s1 in
      Some (g, length ''<think>'' + length g +
               (if drop (length g) s1 = [] then 0 else length ''</think>'')))"

text \<open>
  \<^verbatim>\<open>/<\|start\|>[\s\S]*?(?:\n\n|$)/g\<close>; the callback uses the whole match.
\<close>

definition leakageRegex :: matcher where
  "leakageRegex s =
     (case lit ''<|start|>'' s of None \<Rightarrow> None | Some s1 \<Rightarrow>
      let g = take_until [CHR 0x0A, CHR 0x0A] s1;
          n = length ''<|start|>'' + length g + (if drop (length g) s1 = [] then 0 else 2)
      in Some (take n s, n))"

text \<open>
  \<^verbatim>\<open>/"query":\s*"([^"]+)"/g\<close> and \<^verbatim>\<open>/"url":\s*"([^"]+)"/g\<close> differ in the key only.
\<close>

definition kv_regex :: "string \<Rightarrow> matcher" where
  "kv_regex key s =
     (case lit key s of None \<Rightarrow> None | Some s1 \<Rightarrow>
      case lit [CHR 0x22] (dropWhile is_ws s1) of None \<Rightarrow> None | Some s2 \<Rightarrow>
      if takeWhile (\<lambda>c. c \<noteq> CHR 0x22) s2 = [] then None
      else case lit [CHR 0x22] (dropWhile (\<lambda>c. c \<noteq> CHR 0x22) s2) of None \<Rightarrow> None
           | Some rest \<Rightarrow> Some (takeWhile (\<lambda>c. c \<noteq> CHR 0x22) s2, length s - length rest))"

definition queryRegex :: matcher where
  \<open>queryRegex = kv_regex ''"query":''\<close>

definition urlRegex :: matcher where
  \<open>urlRegex = kv_regex ''"url":''\<close>

text \<open>\<^verbatim>\<open>[^\s<)"']\<close>\<close>

definition http_char :: "char \<Rightarrow> bool" where
  "http_char c = (\<not> is_ws c \<and> c \<notin> set [CHR ''<'', CHR '')'', CHR 0x22, CHR 0x27])"

text \<open>\<^verbatim>\<open>/(https?:\/\/[^\s<)"']+)/g\<close>\<close>

definition httpRegex :: matcher where
  "httpRegex s =
     (case lit ''http'' s of None \<Rightarrow> None | Some s2 \<Rightarrow>
      let s3 = (case lit ''s'' s2 of Some t \<Rightarrow> t | None \<Rightarrow> s2) in
      case lit ''://'' s3 of None \<Rightarrow> None | Some s4 \<Rightarrow>
      if takeWhile http_char s4 = [] then None
      else let n = length s - length (dropWhile http_char s4) in Some (take n s, n))"

subsection \<open>The pipeline\<close>

datatype action_type = Query | Url

text \<open>The interface \<^verbatim>\<open>SearchAction\<close> with its fields \<^verbatim>\<open>type\<close>, \<^verbatim>\<open>content\<close> and \<^verbatim>\<open>id\<close>.\<close>

record SearchAction =
  act_type :: action_type
  act_content :: string
  act_id :: string

text \<open>
  The object that the callback returns. The callback's input, the prop \<^verbatim>\<open>content\<close>, is
  called \<open>text\<close> below.
\<close>

record parsed =
  thought :: string
  main :: string
  searchActions :: "SearchAction list"
  activeAction :: string

text \<open>Step 0: the replacement string \<^verbatim>\<open>' $1 '\<close>, and the two replacements in their order.\<close>

definition cite :: "string \<Rightarrow> string" where
  "cite g = '' '' @ g @ '' ''"

definition unwrap_citations :: "string \<Rightarrow> string" where
  "unwrap_citations text =
     replace_g citationMarkdownRegex cite (replace_g citationLinkRegex cite text)"




text \<open>Whether a text holds a citation in parentheses, of either shape, at some position.\<close>

fun has_citation :: "string \<Rightarrow> bool" where
  "has_citation [] = False"
| "has_citation (c # cs) =
     (citationLinkRegex (c # cs) \<noteq> None \<or> citationMarkdownRegex (c # cs) \<noteq> None \<or>
      has_citation cs)"

text \<open>
  Steps 1 and 2 on the unwrapped text: the array \<^verbatim>\<open>thoughts\<close> after both replacements,
  and \<^verbatim>\<open>mainContent\<close> after both.
\<close>

definition collect_thoughts :: "string \<Rightarrow> string list" where
  "collect_thoughts mainContent =
     matches_g thoughtRegex mainContent @
     map trim (matches_g leakageRegex (replace_g thoughtRegex (\<lambda>g. []) mainContent))"

definition strip_thoughts :: "string \<Rightarrow> string" where
  "strip_thoughts mainContent =
     replace_g leakageRegex (\<lambda>g. []) (replace_g thoughtRegex (\<lambda>g. []) mainContent)"

definition fullThought :: "string \<Rightarrow> string" where
  "fullThought text =
     trim (join [CHR 0x0A, CHR 0x0A] (collect_thoughts (unwrap_citations text)))"

text \<open>
  Step 3. One \<^verbatim>\<open>while\<close> loop over the matches \<open>vs\<close> of one expression, on the state
  \<^verbatim>\<open>seenContent\<close> and \<^verbatim>\<open>extractedActions\<close>; \<open>ok\<close> is the extra condition of the third
  loop and \<open>pre\<close> the prefix of the id.
\<close>

fun push_actions ::
  "(string \<Rightarrow> bool) \<Rightarrow> action_type \<Rightarrow> string \<Rightarrow> string list \<Rightarrow>
   string set \<times> SearchAction list \<Rightarrow> string set \<times> SearchAction list" where
  "push_actions ok ty pre [] st = st"
| "push_actions ok ty pre (v # vs) (seen, acts) =
     push_actions ok ty pre vs
       (if v \<notin> seen \<and> ok v
        then (insert v seen,
              acts @ [\<lparr>act_type = ty, act_content = v, act_id = pre @ show_nat (length acts)\<rparr>])
        else (seen, acts))"

text \<open>The state after the two loops over the structured markers.\<close>

definition structured_actions :: "string \<Rightarrow> string set \<times> SearchAction list" where
  "structured_actions ft =
     push_actions (\<lambda>u. True) Url ''u-'' (matches_g urlRegex ft)
       (push_actions (\<lambda>q. True) Query ''q-'' (matches_g queryRegex ft) ({}, []))"

text \<open>The condition of the fallback, and the fallback loop.\<close>

definition fallback_runs :: "string \<Rightarrow> bool" where
  "fallback_runs ft =
     (length ft > 0 \<and>
      length (filter (\<lambda>a. act_type a = Url) (snd (structured_actions ft))) = 0)"

definition extract_actions :: "string \<Rightarrow> SearchAction list" where
  "extract_actions ft =
     snd (if fallback_runs ft
          then push_actions (\<lambda>u. \<not> str_includes u ''localhost'' \<and> length u > 10) Url ''u-raw-''
                 (matches_g httpRegex ft) (structured_actions ft)
          else structured_actions ft)"

text \<open>
  The values that the loops visit and may push, in the order of the scan: all query
  markers, then all url markers, then, when the fallback runs, the bare URLs that pass its
  extra condition.
\<close>

definition scanned_values :: "string \<Rightarrow> string list" where
  "scanned_values ft =
     matches_g queryRegex ft @ matches_g urlRegex ft @
     (if fallback_runs ft
      then filter (\<lambda>u. \<not> str_includes u ''localhost'' \<and> length u > 10) (matches_g httpRegex ft)
      else [])"

text \<open>
  \<^verbatim>\<open>getDomain\<close>. \<^verbatim>\<open>new URL(url).hostname\<close> belongs to the platform, so it is a parameter
  \<open>hostname\<close>, with \<open>hostname url = None\<close> when the constructor throws.
\<close>

definition getDomain :: "(string \<Rightarrow> string option) \<Rightarrow> string \<Rightarrow> string" where
  "getDomain hostname url =
     (case hostname url of
        Some h \<Rightarrow> (if prefix ''www.'' h then drop 4 h else h)
      | None \<Rightarrow> ''web'')"

text \<open>The header status.\<close>

definition active_label :: "(string \<Rightarrow> string option) \<Rightarrow> bool \<Rightarrow> SearchAction list \<Rightarrow> string" where
  "active_label hostname isThinking extractedActions =
     (if isThinking then
        (if length extractedActions > 0 then
           (let last_action = last extractedActions in
            if act_type last_action = Query
            then ''Searching Google for '' @ [CHR 0x22] @ act_content last_action @ [CHR 0x22]
            else ''Reading content from '' @ getDomain hostname (act_content last_action) @ ''...'')
         else ''Thinking Process'')
      else ''Thought Process'')"

definition parse :: "(string \<Rightarrow> string option) \<Rightarrow> string \<Rightarrow> bool \<Rightarrow> parsed" where
  "parse hostname text isThinking =
     \<lparr>thought = fullThought text,
      main = trim (strip_thoughts (unwrap_citations text)),
      searchActions = extract_actions (fullThought text),
      activeAction = active_label hostname isThinking (extract_actions (fullThought text))\<rparr>"

text \<open>
  A hostname function for the examples: it agrees with \<^verbatim>\<open>new URL(url).hostname\<close> on the
  URLs it knows, and stands for a throwing constructor on every other string.
\<close>

definition example_hostname :: "string \<Rightarrow> string option" where
  "example_hostname =
     [''https://en.wikipedia.org/Paris'' \<mapsto> ''en.wikipedia.org'',
      ''https://www.example.com/a'' \<mapsto> ''www.example.com'']"

text \<open>
  The invariant of the three loops: \<^verbatim>\<open>seenContent\<close> holds exactly the contents of
  \<^verbatim>\<open>extractedActions\<close>, and no content occurs twice.
\<close>

definition acts_inv :: "string set \<times> SearchAction list \<Rightarrow> bool" where
  "acts_inv st = (fst st = set (map act_content (snd st)) \<and> distinct (map act_content (snd st)))"

section \<open>Properties of the demultiplexer\<close>

lemma replace_first_prefix:
  "prefix pat s \<Longrightarrow> replace_first pat rep s = rep @ drop (length pat) s"
  by (cases s) auto

lemma split_nl_nonempty [simp]: "split_nl s \<noteq> []"
  by (induction s) (auto split: list.splits)

lemma split_nl_no_nl: "CHR 0x0A \<notin> set s \<Longrightarrow> split_nl s = [s]"
  by (induction s) auto

lemma split_nl_line: "CHR 0x0A \<notin> set l \<Longrightarrow> split_nl (l @ CHR 0x0A # s) = l # split_nl s"
  by (induction l) auto

lemma last_split_nl_no_nl: "CHR 0x0A \<notin> set (last (split_nl s))"
  by (induction s) (auto split: list.splits)

lemma split_nl_append:
  "split_nl (a @ b) = butlast (split_nl a) @ split_nl (last (split_nl a) @ b)"
proof (induction a)
  case Nil
  then show ?case by simp
next
  case (Cons c cs)
  show ?case
  proof (cases "split_nl cs")
    case Nil
    then show ?thesis by simp
  next
    case (Cons l ls)
    with Cons.IH show ?thesis
      by (cases ls) (auto split: list.splits)
  qed
qed

lemma split_nl_snoc: "split_nl (s @ [CHR 0x0A]) = split_nl s @ [[]]"
  by (induction s) (auto split: list.splits)

lemma last_split_nl_end:
  assumes "s = [] \<or> last s = CHR 0x0A"
  shows "last (split_nl s) = []"
proof (cases "s = []")
  case True
  then show ?thesis by simp
next
  case False
  with assms have "s = butlast s @ [CHR 0x0A]"
    by (metis append_butlast_last_id)
  then have "split_nl s = split_nl (butlast s) @ [[]]"
    by (metis split_nl_snoc)
  then show ?thesis by simp
qed

lemma process_lines_append:
  "process_lines dec b (xs @ ys) =
     (case process_lines dec b xs of
        (t1, r1, ret1) \<Rightarrow>
          if ret1 then (t1, r1, True)
          else (case process_lines dec r1 ys of (t2, r2, ret2) \<Rightarrow> (t1 @ t2, r2, ret2)))"
  by (induction xs arbitrary: b) (auto split: option.splits prod.splits)

lemma read_loop_concat:
  "CHR 0x0A \<notin> set buf \<Longrightarrow>
   read_loop dec buf b cs fin =
     (case process_lines dec b (butlast (split_nl (buf @ concat cs))) of
        (ts, r, ret) \<Rightarrow>
          if ret then (ts, ReturnedAtDone)
          else (case fin of
                  ReadDone \<Rightarrow> (ts @ (if r then [CloseThink] else []), ReturnedAtEnd)
                | ReadRejected e \<Rightarrow> (ts, Threw e)))"
proof (induction cs arbitrary: buf b)
  case Nil
  then show ?case by (cases fin) (simp_all add: split_nl_no_nl)
next
  case (Cons v vs)
  have nb: "CHR 0x0A \<notin> set (last (split_nl (buf @ v)))"
    by (rule last_split_nl_no_nl)
  have sp: "split_nl (buf @ concat (v # vs)) =
        butlast (split_nl (buf @ v)) @ split_nl (last (split_nl (buf @ v)) @ concat vs)"
    using split_nl_append [of "buf @ v" "concat vs"] by simp
  have bl: "butlast (split_nl (buf @ concat (v # vs))) =
        butlast (split_nl (buf @ v)) @ butlast (split_nl (last (split_nl (buf @ v)) @ concat vs))"
    by (simp only: sp butlast_append split_nl_nonempty if_False)
  show ?case
    by (simp only: read_loop.simps Let_def Cons.IH [OF nb] bl process_lines_append)
       (auto split: prod.splits read_end.splits)
qed

lemma handle_line_malformed:
  "malformed_record dec l \<Longrightarrow> handle_line dec b l = Some ([], b)"
  by (auto simp: malformed_record_def handle_line_def Let_def)

lemma process_lines_skip:
  "malformed_record dec l \<Longrightarrow> process_lines dec b (xs @ l # ys) = process_lines dec b (xs @ ys)"
  by (simp add: process_lines_append handle_line_malformed split: prod.splits)

text \<open>
  C9. A malformed record (a \<^verbatim>\<open>data: \<close> line whose payload cannot be decoded) is skipped:
  the generator yields the same tokens and ends the same way as on the stream without that
  record, however the stream is cut into chunks.
\<close>

theorem streamChat_skips_malformed_record:
  assumes "malformed_record dec l" and "CHR 0x0A \<notin> set l"
    and "pre = [] \<or> last pre = CHR 0x0A"
    and "concat cs = pre @ l @ [CHR 0x0A] @ post"
    and "concat cs' = pre @ post"
  shows "streamChat dec cs fin = streamChat dec cs' fin"
proof -
  have e: "last (split_nl pre) = []" using assms(3) by (rule last_split_nl_end)
  have 1: "butlast (split_nl (concat cs)) = butlast (split_nl pre) @ l # butlast (split_nl post)"
    using assms(2) by (simp add: assms(4) split_nl_append [of pre] e split_nl_line butlast_append)
  have 2: "butlast (split_nl (concat cs')) = butlast (split_nl pre) @ butlast (split_nl post)"
    by (simp add: assms(5) split_nl_append [of pre] e butlast_append)
  show ?thesis
    by (simp add: streamChat_def read_loop_concat 1 2 process_lines_skip [OF assms(1)])
qed

theorem streamChat_skips_malformed_record_witness:
  \<open>malformed_record example_dec ''data: {oops'' \<and> CHR 0x0A \<notin> set ''data: {oops'' \<and>
   streamChat example_dec
     [''data: {"choices":[{"delta":{"reasoning":"hm"}}]}\<newline>da'', ''ta: {oops\<newline>'',
      ''data: {"choices":[{"delta":{"content":"ok"}}]}\<newline>''] ReadDone
   = ([OpenThink, ReasoningText ''hm'', CloseThink, AnswerText ''ok''], ReturnedAtEnd)\<close>
proof -
  let ?pre = \<open>''data: {"choices":[{"delta":{"reasoning":"hm"}}]}\<newline>''\<close>
  let ?post = \<open>''data: {"choices":[{"delta":{"content":"ok"}}]}\<newline>''\<close>
  let ?cs = \<open>[''data: {"choices":[{"delta":{"reasoning":"hm"}}]}\<newline>da'', ''ta: {oops\<newline>'',
      ''data: {"choices":[{"delta":{"content":"ok"}}]}\<newline>'']\<close>
  have m: "malformed_record example_dec ''data: {oops''"
    by (simp add: malformed_record_def Let_def trim_def is_ws_def example_dec_def)
  have n: "CHR 0x0A \<notin> set ''data: {oops''" by simp
  have p: "?pre = [] \<or> last ?pre = CHR 0x0A" by simp
  have c: "concat ?cs = ?pre @ ''data: {oops'' @ [CHR 0x0A] @ ?post" by simp
  have c': "concat [?pre, ?post] = ?pre @ ?post" by simp
  have r: "streamChat example_dec [?pre, ?post] ReadDone
      = ([OpenThink, ReasoningText ''hm'', CloseThink, AnswerText ''ok''], ReturnedAtEnd)"
    by (simp add: streamChat_def Let_def handle_line_def trim_def is_ws_def example_dec_def
        emit_def truthy_def)
  from streamChat_skips_malformed_record [OF m n p c c', of ReadDone] r m n
  show ?thesis by simp
qed

section \<open>Properties of the parser\<close>

subsection \<open>The list of activities\<close>

lemma push_actions_inv:
  "acts_inv st \<Longrightarrow> acts_inv (push_actions ok ty pre vs st)"
proof (induction vs arbitrary: st)
  case Nil
  then show ?case by simp
next
  case (Cons v vs)
  obtain seen acts where st: "st = (seen, acts)" by (cases st)
  show ?case unfolding st push_actions.simps
    by (rule Cons.IH) (use Cons.prems in \<open>auto simp: acts_inv_def st\<close>)
qed

lemma push_actions_grows:
  "\<exists>new. snd (push_actions ok ty pre vs st) = snd st @ new \<and> (\<forall>a\<in>set new. act_type a = ty \<and> act_content a \<in> set vs)"
proof (induction vs arbitrary: st)
  case Nil
  then show ?case by simp
next
  case (Cons v vs)
  obtain seen acts where st: "st = (seen, acts)" by (cases st)
  let ?st' = "if v \<notin> seen \<and> ok v
        then (insert v seen,
              acts @ [\<lparr>act_type = ty, act_content = v, act_id = pre @ show_nat (length acts)\<rparr>])
        else (seen, acts)"
  from Cons.IH [of ?st'] obtain new where
    n: "snd (push_actions ok ty pre vs ?st') = snd ?st' @ new"
       "\<forall>a\<in>set new. act_type a = ty \<and> act_content a \<in> set vs" by blast
  show ?case
  proof (cases "v \<notin> seen \<and> ok v")
    case True
    with n show ?thesis unfolding st push_actions.simps
      by (intro exI [of _ "\<lparr>act_type = ty, act_content = v, act_id = pre @ show_nat (length acts)\<rparr> # new"]) auto
  next
    case False
    with n show ?thesis unfolding st push_actions.simps
      by (intro exI [of _ new]) auto
  qed
qed

lemma push_actions_seen_mono: "fst st \<subseteq> fst (push_actions ok ty pre vs st)"
proof (induction vs arbitrary: st)
  case Nil
  then show ?case by simp
next
  case (Cons v vs)
  obtain seen acts where st: "st = (seen, acts)" by (cases st)
  show ?case unfolding st push_actions.simps
    using Cons.IH [of "if v \<notin> seen \<and> ok v
        then (insert v seen,
              acts @ [\<lparr>act_type = ty, act_content = v, act_id = pre @ show_nat (length acts)\<rparr>])
        else (seen, acts)"] by (auto split: if_splits)
qed

lemma push_actions_seen:
  "v \<in> set vs \<Longrightarrow> ok v \<Longrightarrow> v \<in> fst (push_actions ok ty pre vs st)"
proof (induction vs arbitrary: st)
  case Nil
  then show ?case by simp
next
  case (Cons w ws)
  obtain seen acts where st: "st = (seen, acts)" by (cases st)
  let ?st' = "if w \<notin> seen \<and> ok w
        then (insert w seen,
              acts @ [\<lparr>act_type = ty, act_content = w, act_id = pre @ show_nat (length acts)\<rparr>])
        else (seen, acts)"
  show ?case
  proof (cases "v = w")
    case True
    with Cons.prems have "v \<in> fst ?st'" by auto
    then show ?thesis unfolding st push_actions.simps
      using push_actions_seen_mono [of ?st' ok ty pre ws] by blast
  next
    case False
    with Cons.prems have "v \<in> set ws" by simp
    then show ?thesis unfolding st push_actions.simps
      using Cons.IH Cons.prems(2) by blast
  qed
qed

lemma push_actions_adds:
  "v \<in> set vs \<Longrightarrow> ok v \<Longrightarrow> v \<notin> fst st \<Longrightarrow>
   \<exists>a\<in>set (snd (push_actions ok ty pre vs st)). act_type a = ty \<and> act_content a = v"
proof (induction vs arbitrary: st)
  case Nil
  then show ?case by simp
next
  case (Cons w ws)
  obtain seen acts where st: "st = (seen, acts)" by (cases st)
  let ?a = "\<lparr>act_type = ty, act_content = w, act_id = pre @ show_nat (length acts)\<rparr>"
  let ?st' = "if w \<notin> seen \<and> ok w then (insert w seen, acts @ [?a]) else (seen, acts)"
  show ?case
  proof (cases "v = w")
    case True
    with Cons.prems st have st': "?st' = (insert w seen, acts @ [?a])" by auto
    obtain new where "snd (push_actions ok ty pre ws ?st') = snd ?st' @ new"
      using push_actions_grows [of ok ty pre ws ?st'] by blast
    with st' have "?a \<in> set (snd (push_actions ok ty pre ws ?st'))" by simp
    with True show ?thesis unfolding st push_actions.simps
      by (intro bexI [of _ ?a]) auto
  next
    case False
    with Cons.prems st have "v \<in> set ws" "v \<notin> fst ?st'" by auto
    then show ?thesis unfolding st push_actions.simps
      using Cons.IH Cons.prems(2) by blast
  qed
qed

lemma acts_inv_init: "acts_inv ({}, [])"
  by (simp add: acts_inv_def)

lemma structured_actions_inv: "acts_inv (structured_actions ft)"
  unfolding structured_actions_def by (intro push_actions_inv acts_inv_init)

lemma extract_actions_distinct: "distinct (map act_content (extract_actions ft))"
proof -
  have "acts_inv (if fallback_runs ft
          then push_actions (\<lambda>u. \<not> str_includes u ''localhost'' \<and> length u > 10) Url ''u-raw-''
                 (matches_g httpRegex ft) (structured_actions ft)
          else structured_actions ft)"
    by (simp add: push_actions_inv structured_actions_inv)
  then show ?thesis by (simp add: extract_actions_def acts_inv_def)
qed

lemma extract_actions_extends:
  "\<exists>new. extract_actions ft = snd (structured_actions ft) @ new \<and> (\<forall>a\<in>set new. act_type a = Url)"
proof (cases "fallback_runs ft")
  case True
  then show ?thesis
    using push_actions_grows [of "\<lambda>u. \<not> str_includes u ''localhost'' \<and> length u > 10" Url
        "''u-raw-''" "matches_g httpRegex ft" "structured_actions ft"]
    by (auto simp: extract_actions_def)
next
  case False
  then show ?thesis by (simp add: extract_actions_def)
qed

lemma url_marker_in_actions:
  assumes "u \<in> set (matches_g urlRegex ft)"
  shows "u \<in> act_content ` set (extract_actions ft)"
proof -
  have "u \<in> fst (structured_actions ft)"
    unfolding structured_actions_def using assms by (simp add: push_actions_seen)
  then have "u \<in> act_content ` set (snd (structured_actions ft))"
    using structured_actions_inv [of ft] by (simp add: acts_inv_def)
  then show ?thesis using extract_actions_extends [of ft] by auto
qed

lemma distinct_map_filter_one:
  "distinct (map f xs) \<Longrightarrow> x \<in> f ` set xs \<Longrightarrow> length (filter (\<lambda>a. f a = x) xs) = 1"
proof (induction xs)
  case Nil
  then show ?case by simp
next
  case (Cons a xs)
  show ?case
  proof (cases "f a = x")
    case True
    with Cons.prems have "x \<notin> f ` set xs" by auto
    then have "filter (\<lambda>a. f a = x) xs = []" by (auto simp: filter_empty_conv)
    with True show ?thesis by simp
  next
    case False
    with Cons show ?thesis by auto
  qed
qed

lemma structured_actions_split:
  "\<exists>qs us. snd (structured_actions ft) = qs @ us \<and>
     (\<forall>a\<in>set qs. act_type a = Query) \<and> (\<forall>a\<in>set us. act_type a = Url)"
proof -
  obtain qs where qs: "snd (push_actions (\<lambda>q. True) Query ''q-'' (matches_g queryRegex ft) ({}, [])) = [] @ qs"
     "\<forall>a\<in>set qs. act_type a = Query \<and> act_content a \<in> set (matches_g queryRegex ft)"
    using push_actions_grows [of "\<lambda>q. True" Query "''q-''" "matches_g queryRegex ft" "({}, [])"]
    by auto
  obtain us where us: "snd (structured_actions ft) = qs @ us"
     "\<forall>a\<in>set us. act_type a = Url \<and> act_content a \<in> set (matches_g urlRegex ft)"
    using push_actions_grows [of "\<lambda>u. True" Url "''u-''" "matches_g urlRegex ft"
        "push_actions (\<lambda>q. True) Query ''q-'' (matches_g queryRegex ft) ({}, [])"] qs(1)
    unfolding structured_actions_def by auto
  from qs us show ?thesis by blast
qed

lemma extract_actions_split:
  "\<exists>qs us. extract_actions ft = qs @ us \<and>
     (\<forall>a\<in>set qs. act_type a = Query) \<and> (\<forall>a\<in>set us. act_type a = Url)"
proof -
  obtain qs us where s: "snd (structured_actions ft) = qs @ us"
    "\<forall>a\<in>set qs. act_type a = Query" "\<forall>a\<in>set us. act_type a = Url"
    using structured_actions_split by blast
  obtain new where n: "extract_actions ft = snd (structured_actions ft) @ new"
    "\<forall>a\<in>set new. act_type a = Url"
    using extract_actions_extends by blast
  from s n have "extract_actions ft = qs @ (us @ new)" "\<forall>a\<in>set (us @ new). act_type a = Url"
    by auto
  with s(2) show ?thesis by blast
qed

lemma remdups_append_filter:
  "remdups (xs @ ys) = remdups (filter (\<lambda>x. x \<notin> set ys) xs) @ remdups ys"
  by (induction xs) auto

lemma first_occurrences_Cons:
  "rev (remdups (rev (x # xs))) = x # rev (remdups (rev (filter (\<lambda>y. y \<noteq> x) xs)))"
  by (simp add: remdups_append_filter rev_filter)

lemma first_occurrences_append:
  "rev (remdups (rev (xs @ ys)))
     = rev (remdups (rev xs)) @ rev (remdups (rev (filter (\<lambda>y. y \<notin> set xs) ys)))"
  by (simp add: remdups_append_filter rev_filter)

lemma push_actions_contents:
  "map act_content (snd (push_actions ok ty pre vs (seen, acts)))
     = map act_content acts @ rev (remdups (rev (filter (\<lambda>v. v \<notin> seen \<and> ok v) vs)))"
proof (induction vs arbitrary: seen acts)
  case Nil
  then show ?case by simp
next
  case (Cons v vs)
  show ?case
  proof (cases "v \<notin> seen \<and> ok v")
    case True
    let ?a = "\<lparr>act_type = ty, act_content = v, act_id = pre @ show_nat (length acts)\<rparr>"
    let ?P = "\<lambda>v. v \<notin> seen \<and> ok v"
    have f: "filter (\<lambda>y. y \<noteq> v) (filter ?P vs) = filter (\<lambda>x. x \<notin> insert v seen \<and> ok x) vs"
      by (induction vs) auto
    from True have "push_actions ok ty pre (v # vs) (seen, acts)
        = push_actions ok ty pre vs (insert v seen, acts @ [?a])" by simp
    then have "map act_content (snd (push_actions ok ty pre (v # vs) (seen, acts)))
        = map act_content (acts @ [?a])
          @ rev (remdups (rev (filter (\<lambda>x. x \<notin> insert v seen \<and> ok x) vs)))"
      by (simp only: Cons.IH)
    also have "\<dots> = map act_content acts
          @ v # rev (remdups (rev (filter (\<lambda>y. y \<noteq> v) (filter ?P vs))))"
      by (simp only: f) simp
    also have "v # rev (remdups (rev (filter (\<lambda>y. y \<noteq> v) (filter ?P vs))))
        = rev (remdups (rev (v # filter ?P vs)))"
      by (rule first_occurrences_Cons [symmetric])
    also have "v # filter ?P vs = filter ?P (v # vs)" using True by simp
    finally show ?thesis .
  next
    case False
    then have "push_actions ok ty pre (v # vs) (seen, acts) = push_actions ok ty pre vs (seen, acts)"
      and "filter (\<lambda>v. v \<notin> seen \<and> ok v) (v # vs) = filter (\<lambda>v. v \<notin> seen \<and> ok v) vs"
      by auto
    then show ?thesis by (simp only: Cons.IH)
  qed
qed

lemma push_actions_seen_set:
  "fst (push_actions ok ty pre vs (seen, acts)) = seen \<union> {v \<in> set vs. ok v}"
  by (induction vs arbitrary: seen acts) auto

lemma extract_actions_contents:
  "map act_content (extract_actions ft) = rev (remdups (rev (scanned_values ft)))"
proof -
  let ?qs = "matches_g queryRegex ft" and ?us = "matches_g urlRegex ft"
  let ?ok = "\<lambda>u. \<not> str_includes u ''localhost'' \<and> length u > 10"
  let ?fb = "filter ?ok (matches_g httpRegex ft)"
  obtain s1 a1 where st1: "push_actions (\<lambda>q. True) Query ''q-'' ?qs ({}, []) = (s1, a1)"
    by (cases "push_actions (\<lambda>q. True) Query ''q-'' ?qs ({}, [])")
  have s1: "s1 = set ?qs" using push_actions_seen_set [of "\<lambda>q. True" Query "''q-''" ?qs "{}" "[]"]
    by (simp add: st1)
  have a1: "map act_content a1 = rev (remdups (rev ?qs))"
    using push_actions_contents [of "\<lambda>q. True" Query "''q-''" ?qs "{}" "[]"] by (simp add: st1)
  obtain s2 a2 where st2: "structured_actions ft = (s2, a2)" by (cases "structured_actions ft")
  then have p2: "push_actions (\<lambda>u. True) Url ''u-'' ?us (s1, a1) = (s2, a2)"
    by (simp add: structured_actions_def st1)
  have "s2 = fst (push_actions (\<lambda>u. True) Url ''u-'' ?us (s1, a1))" by (simp add: p2)
  also have "\<dots> = s1 \<union> {v \<in> set ?us. True}" by (rule push_actions_seen_set)
  finally have s2: "s2 = set ?qs \<union> set ?us" by (simp add: s1)
  have "map act_content a2
      = map act_content (snd (push_actions (\<lambda>u. True) Url ''u-'' ?us (s1, a1)))"
    by (simp add: p2)
  also have "\<dots> = map act_content a1 @ rev (remdups (rev (filter (\<lambda>v. v \<notin> s1 \<and> True) ?us)))"
    by (rule push_actions_contents)
  also have "\<dots> = rev (remdups (rev (?qs @ ?us)))"
    by (simp only: a1 s1 first_occurrences_append simp_thms)
  finally have a2: "map act_content a2 = rev (remdups (rev (?qs @ ?us)))" .
  show ?thesis
  proof (cases "fallback_runs ft")
    case False
    then show ?thesis by (simp add: extract_actions_def scanned_values_def st2 a2)
  next
    case True
    have f: "filter (\<lambda>v. v \<notin> s2 \<and> ?ok v) (matches_g httpRegex ft)
        = filter (\<lambda>y. y \<notin> set (?qs @ ?us)) ?fb"
      by (auto simp: s2 intro: filter_cong)
    have "map act_content (extract_actions ft)
        = map act_content a2 @ rev (remdups (rev (filter (\<lambda>v. v \<notin> s2 \<and> ?ok v) (matches_g httpRegex ft))))"
      using True push_actions_contents [of ?ok Url "''u-raw-''" "matches_g httpRegex ft" s2 a2]
      by (simp add: extract_actions_def st2)
    also have "\<dots> = rev (remdups (rev ((?qs @ ?us) @ ?fb)))"
      by (simp only: a2 f first_occurrences_append)
    finally show ?thesis using True by (simp add: scanned_values_def)
  qed
qed

lemma extract_actions_kinds:
  assumes "a \<in> set (extract_actions ft)"
  shows "act_type a = Query \<longleftrightarrow> act_content a \<in> set (matches_g queryRegex ft)"
proof -
  let ?st1 = "push_actions (\<lambda>q. True) Query ''q-'' (matches_g queryRegex ft) ({}, [])"
  obtain qs where qs: "snd ?st1 = [] @ qs"
     "\<forall>a\<in>set qs. act_type a = Query \<and> act_content a \<in> set (matches_g queryRegex ft)"
    using push_actions_grows [of "\<lambda>q. True" Query "''q-''" "matches_g queryRegex ft" "({}, [])"]
    by auto
  have c: "act_content ` set qs = set (matches_g queryRegex ft)"
    using push_actions_inv [OF acts_inv_init, of "\<lambda>q. True" Query "''q-''" "matches_g queryRegex ft"]
      push_actions_seen_set [of "\<lambda>q. True" Query "''q-''" "matches_g queryRegex ft" "{}" "[]"] qs(1)
    by (simp add: acts_inv_def)
  obtain us where us: "snd (structured_actions ft) = snd ?st1 @ us" "\<forall>a\<in>set us. act_type a = Url"
    using push_actions_grows [of "\<lambda>u. True" Url "''u-''" "matches_g urlRegex ft" ?st1]
    unfolding structured_actions_def by auto
  obtain new where n: "extract_actions ft = snd (structured_actions ft) @ new"
    "\<forall>a\<in>set new. act_type a = Url"
    using extract_actions_extends by blast
  have e: "extract_actions ft = qs @ (us @ new)" using qs(1) us(1) n(1) by simp
  have d: "distinct (map act_content (qs @ (us @ new)))"
    using extract_actions_distinct [of ft] by (simp only: e)
  from assms e consider "a \<in> set qs" | "a \<in> set (us @ new)" by auto
  then show ?thesis
  proof cases
    case 1
    with qs(2) show ?thesis by blast
  next
    case 2
    then have u: "act_type a = Url" using us(2) n(2) by auto
    from 2 d have "act_content a \<notin> act_content ` set qs" by auto
    with u c show ?thesis by simp
  qed
qed

text \<open>
  C5 (amended). The activities returned by the parser never hold the same value twice,
  whatever their kinds. They are the values in the order of the scan (all query markers,
  then all url markers, then the bare URLs of the fallback when it runs), each kept at its
  first occurrence in that order; an activity is a query exactly when a query marker
  carries its value. In particular a value that a \<^verbatim>\<open>"url": "..."\<close> marker of the reasoning
  buffer carries, once or several times, is the value of exactly one activity.
\<close>

theorem searchActions_distinct_values:
  "distinct (map act_content (searchActions (parse hostname text isThinking))) \<and>
   map act_content (searchActions (parse hostname text isThinking))
     = rev (remdups (rev (scanned_values (thought (parse hostname text isThinking))))) \<and>
   (\<forall>a\<in>set (searchActions (parse hostname text isThinking)).
      act_type a = Query \<longleftrightarrow>
      act_content a \<in> set (matches_g queryRegex (thought (parse hostname text isThinking)))) \<and>
   (u \<in> set (matches_g urlRegex (thought (parse hostname text isThinking))) \<longrightarrow>
      length (filter (\<lambda>a. act_content a = u) (searchActions (parse hostname text isThinking))) = 1)"
  by (simp add: parse_def extract_actions_distinct url_marker_in_actions distinct_map_filter_one
      extract_actions_contents extract_actions_kinds)

theorem searchActions_distinct_values_witness:
  \<open>''https://a.b/c'' \<in> set (matches_g urlRegex (thought (parse example_hostname
      ''<think>"url": "https://a.b/c" "query": "zz" "url": "https://a.b/c"'' True))) \<and>
   scanned_values (thought (parse example_hostname
      ''<think>"url": "https://a.b/c" "query": "zz" "url": "https://a.b/c"'' True))
     = [''zz'', ''https://a.b/c'', ''https://a.b/c''] \<and>
   map act_content (searchActions (parse example_hostname
      ''<think>"url": "https://a.b/c" "query": "zz" "url": "https://a.b/c"'' True))
     = [''zz'', ''https://a.b/c''] \<and>
   map act_type (searchActions (parse example_hostname
      ''<think>"url": "https://a.b/c" "query": "zz" "url": "https://a.b/c"'' True))
     = [Query, Url] \<and>
   length (filter (\<lambda>a. act_content a = ''https://a.b/c'')
      (searchActions (parse example_hostname
        ''<think>"url": "https://a.b/c" "query": "zz" "url": "https://a.b/c"'' True))) = 1\<close>
proof -
  let ?t = \<open>''<think>"url": "https://a.b/c" "query": "zz" "url": "https://a.b/c"''\<close>
  let ?p = "parse example_hostname ?t True"
  have m: "matches_g urlRegex (thought ?p) = [''https://a.b/c'', ''https://a.b/c'']"
    by code_simp
  then have h: "''https://a.b/c'' \<in> set (matches_g urlRegex (thought ?p))"
    by simp
  have s: "scanned_values (thought ?p) = [''zz'', ''https://a.b/c'', ''https://a.b/c'']"
    by code_simp
  have k: "map act_type (searchActions ?p) = [Query, Url]" by code_simp
  note t = searchActions_distinct_values [of example_hostname ?t True "''https://a.b/c''"]
  from t have "map act_content (searchActions ?p) = rev (remdups (rev (scanned_values (thought ?p))))"
    by blast
  then have c: "map act_content (searchActions ?p) = [''zz'', ''https://a.b/c'']"
    by (simp add: s)
  from t h have l: "length (filter (\<lambda>a. act_content a = ''https://a.b/c'') (searchActions ?p)) = 1"
    by blast
  from h s c k l show ?thesis by blast
qed

text \<open>
  C5 as stated fails where it says that the first occurrence wins, read in the order of
  the text: when a url marker comes first and a query marker with the same value follows,
  the value is kept as a query.
\<close>

theorem searchActions_later_query_wins:
  \<open>thought (parse example_hostname ''<think>"url": "zz" "query": "zz"'' True)
     = ''"url": "zz" "query": "zz"'' \<and>
   searchActions (parse example_hostname ''<think>"url": "zz" "query": "zz"'' True)
     = [\<lparr>act_type = Query, act_content = ''zz'', act_id = ''q-0''\<rparr>]\<close>
  by code_simp

text \<open>
  C10. In the activities returned by the parser every query precedes every url, because
  the loop over the query markers runs before the loops that add urls; the order is not the
  order of the markers in the text.
\<close>

theorem searchActions_queries_first:
  assumes "i < length (searchActions (parse hostname text isThinking))"
    and "j < length (searchActions (parse hostname text isThinking))"
    and "act_type (searchActions (parse hostname text isThinking) ! i) = Query"
    and "act_type (searchActions (parse hostname text isThinking) ! j) = Url"
  shows "i < j"
proof -
  obtain qs us where s: "extract_actions (fullThought text) = qs @ us"
    "\<forall>a\<in>set qs. act_type a = Query" "\<forall>a\<in>set us. act_type a = Url"
    using extract_actions_split by blast
  have acts: "searchActions (parse hostname text isThinking) = qs @ us"
    by (simp add: parse_def s(1))
  have i: "i < length qs"
  proof (rule ccontr)
    assume "\<not> i < length qs"
    with assms(1) acts have "(qs @ us) ! i \<in> set us" by (simp add: nth_append)
    with s(3) assms(3) acts show False by auto
  qed
  have j: "\<not> j < length qs"
  proof
    assume "j < length qs"
    then have "(qs @ us) ! j \<in> set qs" by (simp add: nth_append)
    with s(2) assms(4) acts show False by auto
  qed
  from i j show ?thesis by simp
qed


theorem searchActions_queries_first_witness:
  \<open>searchActions (parse example_hostname
      ''<think>"url": "https://www.example.com/a"  "query": "zz" '' True)
     = [\<lparr>act_type = Query, act_content = ''zz'', act_id = ''q-0''\<rparr>,
        \<lparr>act_type = Url, act_content = ''https://www.example.com/a'', act_id = ''u-1''\<rparr>] \<and>
   (0::nat) < 1\<close>
proof -
  let ?t = \<open>''<think>"url": "https://www.example.com/a"  "query": "zz" ''\<close>
  have v: "searchActions (parse example_hostname ?t True)
     = [\<lparr>act_type = Query, act_content = ''zz'', act_id = ''q-0''\<rparr>,
        \<lparr>act_type = Url, act_content = ''https://www.example.com/a'', act_id = ''u-1''\<rparr>]"
    by code_simp
  have "(0::nat) < 1"
    by (rule searchActions_queries_first [of 0 example_hostname ?t True 1]) (simp_all add: v)
  with v show ?thesis by blast
qed

subsection \<open>The fallback scan\<close>

text \<open>
  When some \<^verbatim>\<open>"url": "..."\<close> marker of the reasoning buffer carries a value that no
  \<^verbatim>\<open>"query": "..."\<close> marker carries, the structured scan extracts a url activity, the
  fallback does not run and the activities are exactly those of the structured markers.
\<close>

lemma fallback_suppressed_by_url_activity:
  assumes "u \<in> set (matches_g urlRegex (thought (parse hostname text isThinking)))"
    and "u \<notin> set (matches_g queryRegex (thought (parse hostname text isThinking)))"
  shows "\<not> fallback_runs (thought (parse hostname text isThinking)) \<and>
         searchActions (parse hostname text isThinking)
           = snd (structured_actions (thought (parse hostname text isThinking)))"
proof -
  let ?ft = "fullThought text"
  let ?st1 = "push_actions (\<lambda>q. True) Query ''q-'' (matches_g queryRegex ?ft) ({}, [])"
  from assms have u: "u \<in> set (matches_g urlRegex ?ft)" "u \<notin> set (matches_g queryRegex ?ft)"
    by (simp_all add: parse_def)
  have "acts_inv ?st1" by (intro push_actions_inv acts_inv_init)
  moreover obtain new where "snd ?st1 = [] @ new"
    "\<forall>a\<in>set new. act_type a = Query \<and> act_content a \<in> set (matches_g queryRegex ?ft)"
    using push_actions_grows [of "\<lambda>q. True" Query "''q-''" "matches_g queryRegex ?ft" "({}, [])"]
    by auto
  ultimately have "fst ?st1 \<subseteq> set (matches_g queryRegex ?ft)"
    by (auto simp: acts_inv_def)
  with u(2) have "u \<notin> fst ?st1" by blast
  with u(1) obtain a where "a \<in> set (snd (structured_actions ?ft))" "act_type a = Url"
    unfolding structured_actions_def
    using push_actions_adds [of u "matches_g urlRegex ?ft" "\<lambda>u. True" ?st1 Url "''u-''"]
    by blast
  then have "filter (\<lambda>a. act_type a = Url) (snd (structured_actions ?ft)) \<noteq> []"
    by (auto simp: filter_empty_conv)
  then have "\<not> fallback_runs ?ft" by (simp add: fallback_runs_def)
  then show ?thesis by (simp add: parse_def extract_actions_def)
qed

text \<open>
  C4. The fallback must not run when the reasoning buffer holds a \<^verbatim>\<open>"url": "..."\<close>
  marker. The code departs from this: its guard counts the url activities extracted, and
  when the only url marker repeats the value of a query marker no url activity is
  extracted from it, so the fallback runs and adds a bare URL.
\<close>

theorem fallback_runs_despite_url_marker:
  \<open>matches_g urlRegex (thought (parse example_hostname
      ''<think>"query": "https://a.b/c" "url": "https://a.b/c" https://example.com/bb'' True))
     = [''https://a.b/c''] \<and>
   fallback_runs (thought (parse example_hostname
      ''<think>"query": "https://a.b/c" "url": "https://a.b/c" https://example.com/bb'' True)) \<and>
   searchActions (parse example_hostname
      ''<think>"query": "https://a.b/c" "url": "https://a.b/c" https://example.com/bb'' True)
     = [\<lparr>act_type = Query, act_content = ''https://a.b/c'', act_id = ''q-0''\<rparr>,
        \<lparr>act_type = Url, act_content = ''https://example.com/bb'', act_id = ''u-raw-1''\<rparr>]\<close>
  by code_simp

subsection \<open>The status label\<close>

text \<open>
  C7 (amended). While the message is live and at least one activity was extracted, the
  label describes the last activity: \<^verbatim>\<open>Searching Google for "<value>"\<close> for a query, and
  \<^verbatim>\<open>Reading content from <domain>...\<close> for a url, where the domain is the host of the URL
  without a leading \<^verbatim>\<open>www.\<close>, and the fixed word \<^verbatim>\<open>web\<close> when the URL cannot be parsed.
\<close>

theorem activeAction_describes_last_action:
  assumes "searchActions (parse hostname text True) \<noteq> []"
  shows "activeAction (parse hostname text True) =
     (let a = last (searchActions (parse hostname text True)) in
      case act_type a of
        Query \<Rightarrow> ''Searching Google for '' @ [CHR 0x22] @ act_content a @ [CHR 0x22]
      | Url \<Rightarrow> ''Reading content from '' @
          (case hostname (act_content a) of
             Some h \<Rightarrow> (if prefix ''www.'' h then drop 4 h else h)
           | None \<Rightarrow> ''web'') @ ''...'')"
  using assms
  by (cases "act_type (last (extract_actions (fullThought text)))")
     (simp_all add: parse_def active_label_def getDomain_def Let_def)

theorem activeAction_describes_last_action_witness:
  \<open>searchActions (parse example_hostname
      ''<think>"query": "zz" "url": "https://www.example.com/a"'' True) \<noteq> [] \<and>
   activeAction (parse example_hostname
      ''<think>"query": "zz" "url": "https://www.example.com/a"'' True)
     = ''Reading content from example.com...''\<close>
proof -
  let ?t = \<open>''<think>"query": "zz" "url": "https://www.example.com/a"''\<close>
  have h: "searchActions (parse example_hostname ?t True) \<noteq> []"
    by code_simp
  have v: "(let a = last (searchActions (parse example_hostname ?t True)) in
      case act_type a of
        Query \<Rightarrow> ''Searching Google for '' @ [CHR 0x22] @ act_content a @ [CHR 0x22]
      | Url \<Rightarrow> ''Reading content from '' @
          (case example_hostname (act_content a) of
             Some h \<Rightarrow> (if prefix ''www.'' h then drop 4 h else h)
           | None \<Rightarrow> ''web'') @ ''...'') = ''Reading content from example.com...''"
    by code_simp
  from activeAction_describes_last_action [OF h] v h show ?thesis by simp
qed

text \<open>
  C7 as stated fails on a value that is not a URL: the label does not fall back to the
  value, it reads \<^verbatim>\<open>web\<close>.
\<close>

theorem activeAction_malformed_url_reads_web:
  \<open>example_hostname ''not a url'' = None \<and>
   searchActions (parse example_hostname ''<think>"url": "not a url"'' True)
     = [\<lparr>act_type = Url, act_content = ''not a url'', act_id = ''u-0''\<rparr>] \<and>
   activeAction (parse example_hostname ''<think>"url": "not a url"'' True)
     = ''Reading content from web...''\<close>
  by code_simp

subsection \<open>Texts without markers\<close>

lemma str_includes_sublist: "str_includes s pat \<longleftrightarrow> sublist pat s"
  by (induction s) (auto simp: sublist_Cons_right)

lemma replace_g_no_match:
  "(\<And>t. suffix t s \<Longrightarrow> m t = None) \<Longrightarrow> replace_g m f s = s"
proof (induction s)
  case Nil
  then show ?case by simp
next
  case (Cons c cs)
  have "m (c # cs) = None" by (rule Cons.prems) simp
  moreover have "replace_g m f cs = cs"
    by (rule Cons.IH) (simp add: Cons.prems suffix_Cons)
  ultimately show ?case by simp
qed

lemma matches_g_no_match:
  "(\<And>t. suffix t s \<Longrightarrow> m t = None) \<Longrightarrow> matches_g m s = []"
proof (induction s)
  case Nil
  then show ?case by simp
next
  case (Cons c cs)
  have "m (c # cs) = None" by (rule Cons.prems) simp
  moreover have "matches_g m cs = []"
    by (rule Cons.IH) (simp add: Cons.prems suffix_Cons)
  ultimately show ?case by simp
qed

lemma prefix_suffix_sublist: "prefix p t \<Longrightarrow> suffix t s \<Longrightarrow> sublist p s"
  by (auto simp: sublist_altdef')

lemma lit_Some: "lit p s = Some r \<longleftrightarrow> prefix p s \<and> r = drop (length p) s"
  by (auto simp: lit_def)

lemma lit_None: "lit p s = None \<longleftrightarrow> \<not> prefix p s"
  by (auto simp: lit_def)

lemma thoughtRegex_prefix: "thoughtRegex t = Some x \<Longrightarrow> prefix ''<think>'' t"
  by (auto simp: thoughtRegex_def lit_def split: option.splits if_splits)

lemma leakageRegex_prefix: "leakageRegex t = Some x \<Longrightarrow> prefix ''<|start|>'' t"
  by (auto simp: leakageRegex_def lit_def split: option.splits if_splits)

lemma no_think_no_match:
  assumes "\<not> sublist ''<think>'' s" and "suffix t s"
  shows "thoughtRegex t = None"
proof (cases "thoughtRegex t")
  case None
  then show ?thesis .
next
  case (Some x)
  then have "prefix ''<think>'' t" by (rule thoughtRegex_prefix)
  with assms show ?thesis using prefix_suffix_sublist by blast
qed

lemma no_start_no_match:
  assumes "\<not> sublist ''<|start|>'' s" and "suffix t s"
  shows "leakageRegex t = None"
proof (cases "leakageRegex t")
  case None
  then show ?thesis .
next
  case (Some x)
  then have "prefix ''<|start|>'' t" by (rule leakageRegex_prefix)
  with assms show ?thesis using prefix_suffix_sublist by blast
qed

lemma sublist_trans: "sublist a b \<Longrightarrow> sublist b c \<Longrightarrow> sublist a c"
  using sublist_order.order.trans by blast

lemma citationLinkRegex_group:
  assumes "citationLinkRegex t = Some (g, n)"
  shows "sublist g t"
proof -
  from assms obtain k where g: "g = take k (dropWhile is_ws (drop 1 t))"
    by (auto simp: citationLinkRegex_def lit_Some Let_def split: option.splits if_splits)
  have "sublist (take k (dropWhile is_ws (drop 1 t))) (dropWhile is_ws (drop 1 t))" by simp
  also have "sublist (dropWhile is_ws (drop 1 t)) (drop 1 t)" by simp
  also have "sublist (drop 1 t) t" by simp
  finally show ?thesis by (simp add: g)
qed

lemma citationMarkdownRegex_group:
  assumes "citationMarkdownRegex t = Some (g, n)"
  shows "sublist g t"
proof -
  from assms obtain k where g: "g = take k (dropWhile is_ws (drop 1 t))"
    by (auto simp: citationMarkdownRegex_def lit_Some Let_def split: option.splits if_splits)
  have "sublist (take k (dropWhile is_ws (drop 1 t))) (dropWhile is_ws (drop 1 t))" by simp
  also have "sublist (dropWhile is_ws (drop 1 t)) (drop 1 t)" by simp
  also have "sublist (drop 1 t) t" by simp
  finally show ?thesis by (simp add: g)
qed

lemma prefix_replace_g_cite:
  assumes "CHR '' '' \<notin> set p" and "prefix p (replace_g m cite s)"
  shows "prefix p s"
  using assms
proof (induction s arbitrary: p)
  case Nil
  then show ?case by simp
next
  case (Cons c cs)
  show ?case
  proof (cases "m (c # cs)")
    case None
    show ?thesis
    proof (cases p)
      case Nil
      then show ?thesis by simp
    next
      case (Cons a q)
      with Cons.prems None have "a = c" "prefix q (replace_g m cite cs)" "CHR '' '' \<notin> set q"
        by auto
      with Cons.IH [of q] Cons show ?thesis by simp
    qed
  next
    case (Some x)
    obtain g n where x: "x = (g, n)" by (cases x)
    have "cite g @ r = CHR '' '' # g @ '' '' @ r" for r
      by (simp add: cite_def)
    moreover from Some x have "replace_g m cite (c # cs) = cite g @ replace_g m cite (drop (n - 1) cs)"
      by simp
    ultimately have "\<exists>r. replace_g m cite (c # cs) = CHR '' '' # r"
      by metis
    with Cons.prems have "p = []" by (cases p) auto
    then show ?thesis by simp
  qed
qed

lemma sublist_split_sep:
  assumes "sublist p (xs @ c # ys)" and "c \<notin> set p"
  shows "sublist p xs \<or> sublist p ys"
proof -
  from assms(1) consider "sublist p xs" | "sublist p (c # ys)"
    | xs1 xs2 where "p = xs1 @ xs2" "suffix xs1 xs" "prefix xs2 (c # ys)"
    unfolding sublist_append by blast
  then show ?thesis
  proof cases
    case 1
    then show ?thesis by simp
  next
    case 2
    then have "prefix p (c # ys) \<or> sublist p ys" by (simp add: sublist_Cons_right)
    moreover have "p = []" if "prefix p (c # ys)"
      using that assms(2) by (cases p) auto
    ultimately show ?thesis by auto
  next
    case 3
    from 3(3) assms(2) 3(1) have "xs2 = []" by (cases xs2) auto
    with 3 show ?thesis by auto
  qed
qed

lemma sublist_replace_g_cite:
  assumes "CHR '' '' \<notin> set p" and "\<And>t g n. m t = Some (g, n) \<Longrightarrow> sublist g t"
    and "sublist p (replace_g m cite s)"
  shows "sublist p s"
  using assms(3)
proof (induction s rule: measure_induct_rule [where f = length])
  case (less s)
  show ?case
  proof (cases s)
    case Nil
    with less.prems show ?thesis by simp
  next
    case (Cons c cs)
    note s = Cons
  show ?thesis
  proof (cases "m (c # cs)")
    case None
    with less.prems s have "prefix p (c # replace_g m cite cs) \<or> sublist p (replace_g m cite cs)"
      by (simp add: sublist_Cons_right)
    then show ?thesis
    proof
      assume "prefix p (c # replace_g m cite cs)"
      with None have "prefix p (replace_g m cite (c # cs))" by simp
      with assms(1) have "prefix p (c # cs)" by (rule prefix_replace_g_cite)
      then show ?thesis by (simp add: s)
    next
      assume "sublist p (replace_g m cite cs)"
      with less.IH [of cs] s have "sublist p cs" by simp
      then show ?thesis by (simp add: s sublist_Cons_right)
    qed
  next
    case (Some x)
    obtain g n where x: "x = (g, n)" by (cases x)
    let ?r = "replace_g m cite (drop (n - 1) cs)"
    have "cite g @ r = ([] @ CHR '' '' # g) @ CHR '' '' # r" for r
      by (simp add: cite_def)
    with Some x less.prems s have "sublist p (([] @ CHR '' '' # g) @ CHR '' '' # ?r)"
      by simp
    with assms(1) have "sublist p ([] @ CHR '' '' # g) \<or> sublist p ?r"
      by (rule sublist_split_sep [rotated])
    moreover have "sublist p [] \<or> sublist p g" if "sublist p ([] @ CHR '' '' # g)"
      using that assms(1) by (rule sublist_split_sep)
    ultimately consider "p = []" | "sublist p g" | "sublist p ?r" by auto
    then show ?thesis
    proof cases
      case 1
      then show ?thesis by simp
    next
      case 2
      moreover have "sublist g (c # cs)" using Some x assms(2) by blast
      ultimately show ?thesis unfolding s by (rule sublist_trans)
    next
      case 3
      with less.IH [of "drop (n - 1) cs"] s have "sublist p (drop (n - 1) cs)" by simp
      moreover have "sublist (drop (n - 1) cs) (c # cs)"
        by (metis sublist_drop sublist_Cons_right)
      ultimately show ?thesis unfolding s by (rule sublist_trans)
    qed
  qed
  qed
qed


lemma unwrap_citations_no_new_marker:
  assumes "CHR '' '' \<notin> set p" and "sublist p (unwrap_citations s)"
  shows "sublist p s"
proof -
  from assms have "sublist p (replace_g citationLinkRegex cite s)"
    unfolding unwrap_citations_def
    using sublist_replace_g_cite [of p citationMarkdownRegex] citationMarkdownRegex_group
    by blast
  with assms(1) show ?thesis
    using sublist_replace_g_cite [of p citationLinkRegex] citationLinkRegex_group
    by blast
qed

lemma no_markers_nothing_collected:
  assumes "\<not> sublist ''<think>'' u" and "\<not> sublist ''<|start|>'' u"
  shows "collect_thoughts u = [] \<and> strip_thoughts u = u"
proof -
  have t: "thoughtRegex t = None" if "suffix t u" for t
    using assms(1) that by (rule no_think_no_match)
  have l: "leakageRegex t = None" if "suffix t u" for t
    using assms(2) that by (rule no_start_no_match)
  have 1: "replace_g thoughtRegex (\<lambda>g. []) u = u" using t by (rule replace_g_no_match)
  have 2: "matches_g thoughtRegex u = []" using t by (rule matches_g_no_match)
  have 3: "replace_g leakageRegex (\<lambda>g. []) u = u" using l by (rule replace_g_no_match)
  have 4: "matches_g leakageRegex u = []" using l by (rule matches_g_no_match)
  show ?thesis by (simp add: collect_thoughts_def strip_thoughts_def 1 2 3 4)
qed

lemma plain_text_parts:
  assumes "\<not> str_includes text ''<think>''" and "\<not> str_includes text ''<|start|>''"
  shows "collect_thoughts (unwrap_citations text) = [] \<and>
         strip_thoughts (unwrap_citations text) = unwrap_citations text"
proof -
  have "\<not> sublist ''<think>'' (unwrap_citations text)"
    using assms(1) unwrap_citations_no_new_marker [of "''<think>''" "text"]
    by (auto simp: str_includes_sublist)
  moreover have "\<not> sublist ''<|start|>'' (unwrap_citations text)"
    using assms(2) unwrap_citations_no_new_marker [of "''<|start|>''" "text"]
    by (auto simp: str_includes_sublist)
  ultimately show ?thesis by (rule no_markers_nothing_collected)
qed







subsection \<open>When the reasoning is empty\<close>

lemma all_dropWhile_iff: "(\<forall>c\<in>set (dropWhile P s). P c) \<longleftrightarrow> (\<forall>c\<in>set s. P c)"
  by (induction s) auto

lemma trim_empty_iff: "trim s = [] \<longleftrightarrow> (\<forall>c\<in>set s. is_ws c)"
  using all_dropWhile_iff [of is_ws s] by (simp add: trim_def)

lemma notP_in_dropWhile: "c \<in> set s \<Longrightarrow> \<not> P c \<Longrightarrow> c \<in> set (dropWhile P s)"
  by (induction s) auto

lemma nonws_in_trim: "c \<in> set s \<Longrightarrow> \<not> is_ws c \<Longrightarrow> c \<in> set (trim s)"
  by (simp add: trim_def notP_in_dropWhile)

lemma all_join_iff:
  "\<forall>c\<in>set sep. P c \<Longrightarrow> (\<forall>c\<in>set (join sep ps). P c) \<longleftrightarrow> (\<forall>p\<in>set ps. \<forall>c\<in>set p. P c)"
  by (induction sep ps rule: join.induct) auto

lemma matches_g_from:
  "g \<in> set (matches_g m s) \<Longrightarrow> \<exists>t n. m t = Some (g, n)"
proof (induction s rule: measure_induct_rule [where f = length])
  case (less s)
  show ?case
  proof (cases s)
    case Nil
    with less.prems show ?thesis by simp
  next
    case (Cons c cs)
    show ?thesis
    proof (cases "m (c # cs)")
      case None
      with less.prems Cons have "g \<in> set (matches_g m cs)" by simp
      with less.IH [of cs] Cons show ?thesis by simp
    next
      case (Some x)
      obtain g' n where x: "x = (g', n)" by (cases x)
      with Some less.prems Cons have "g = g' \<or> g \<in> set (matches_g m (drop (n - 1) cs))" by auto
      then show ?thesis
      proof
        assume "g = g'"
        with Some x show ?thesis by blast
      next
        assume "g \<in> set (matches_g m (drop (n - 1) cs))"
        with less.IH [of "drop (n - 1) cs"] Cons show ?thesis by simp
      qed
    qed
  qed
qed

lemma leakageRegex_capture: "leakageRegex t = Some (g, n) \<Longrightarrow> CHR ''<'' \<in> set g"
proof -
  assume a: "leakageRegex t = Some (g, n)"
  then have p: "prefix ''<|start|>'' t" by (rule leakageRegex_prefix)
  from a have "g = take n t" "9 \<le> n"
    by (auto simp: leakageRegex_def lit_def Let_def split: if_splits)
  moreover then obtain k where "n = Suc k" by (cases n) auto
  ultimately show ?thesis using p by (auto simp: prefix_def)
qed

lemma is_ws_lt [simp]: "\<not> is_ws CHR ''<''"
  by (simp add: is_ws_def)

text \<open>
  C8 (amended). The reasoning is empty when the text contains neither the opening marker
  nor the tool-call marker. In general it is empty exactly when every captured reasoning
  span is blank (empty or white space only) and no leaked tool call is captured.
\<close>

theorem thought_empty_iff:
  "(\<not> str_includes text ''<think>'' \<and> \<not> str_includes text ''<|start|>'' \<longrightarrow>
      thought (parse hostname text isThinking) = []) \<and>
   (thought (parse hostname text isThinking) = [] \<longleftrightarrow>
      (\<forall>g\<in>set (matches_g thoughtRegex (unwrap_citations text)). \<forall>c\<in>set g. is_ws c) \<and>
      matches_g leakageRegex (replace_g thoughtRegex (\<lambda>g. []) (unwrap_citations text)) = [])"
proof -
  let ?u = "unwrap_citations text"
  let ?leaks = "matches_g leakageRegex (replace_g thoughtRegex (\<lambda>g. []) ?u)"
  have sep: "\<forall>c\<in>set [CHR 0x0A, CHR 0x0A]. is_ws c" by (simp add: is_ws_def)
  have leak: "\<not> (\<forall>c\<in>set (trim g). is_ws c)" if "g \<in> set ?leaks" for g
  proof -
    from that obtain t n where "leakageRegex t = Some (g, n)"
      using matches_g_from by blast
    then have "CHR ''<'' \<in> set g" by (rule leakageRegex_capture)
    then have "CHR ''<'' \<in> set (trim g)" by (simp add: nonws_in_trim)
    then show ?thesis using is_ws_lt by blast
  qed
  have "thought (parse hostname text isThinking) = [] \<longleftrightarrow>
      (\<forall>p\<in>set (collect_thoughts ?u). \<forall>c\<in>set p. is_ws c)"
    by (simp add: parse_def fullThought_def trim_empty_iff all_join_iff [OF sep])
  also have "\<dots> \<longleftrightarrow> (\<forall>g\<in>set (matches_g thoughtRegex ?u). \<forall>c\<in>set g. is_ws c) \<and>
      (\<forall>g\<in>set ?leaks. \<forall>c\<in>set (trim g). is_ws c)"
    by (auto simp: collect_thoughts_def)
  also have "\<dots> \<longleftrightarrow> (\<forall>g\<in>set (matches_g thoughtRegex ?u). \<forall>c\<in>set g. is_ws c) \<and> ?leaks = []"
    using leak by (cases ?leaks) auto
  finally have 2: "thought (parse hostname text isThinking) = [] \<longleftrightarrow>
      (\<forall>g\<in>set (matches_g thoughtRegex ?u). \<forall>c\<in>set g. is_ws c) \<and> ?leaks = []" .
  have 1: "thought (parse hostname text isThinking) = []"
    if "\<not> str_includes text ''<think>''" "\<not> str_includes text ''<|start|>''"
    using plain_text_parts [OF that] by (simp add: parse_def fullThought_def trim_def)
  from 1 2 show ?thesis by blast
qed

theorem thought_empty_iff_witness:
  \<open>\<not> str_includes ''plain'' ''<think>'' \<and> \<not> str_includes ''plain'' ''<|start|>'' \<and>
   thought (parse example_hostname ''plain'' True) = [] \<and>
   matches_g thoughtRegex (unwrap_citations ''a<think>b</think>c'') = [''b''] \<and>
   thought (parse example_hostname ''a<think>b</think>c'' True) \<noteq> []\<close>
proof -
  have h: "\<not> str_includes ''plain'' ''<think>'' \<and> \<not> str_includes ''plain'' ''<|start|>''"
    by code_simp
  have m: "matches_g thoughtRegex (unwrap_citations ''a<think>b</think>c'') = [''b'']"
    by code_simp
  have b: "\<not> is_ws CHR ''b''" by (simp add: is_ws_def)
  from thought_empty_iff [of "''plain''" example_hostname True] h
  have 1: "thought (parse example_hostname ''plain'' True) = []" by blast
  from thought_empty_iff [of "''a<think>b</think>c''" example_hostname True] m b
  have 2: "thought (parse example_hostname ''a<think>b</think>c'' True) \<noteq> []" by simp
  from h m 1 2 show ?thesis by blast
qed

text \<open>
  C8 as stated fails from right to left: a text with an opening marker whose span is blank
  has empty reasoning.
\<close>

theorem thought_empty_despite_marker:
  \<open>str_includes ''<think> </think>ok'' ''<think>'' \<and>
   thought (parse example_hostname ''<think> </think>ok'' True) = []\<close>
  by code_simp

subsection \<open>Growing reasoning buffers\<close>

lemma kv_regex_SomeD:
  assumes "kv_regex key t = Some (g, n)"
  shows "\<exists>w rest. t = key @ w @ CHR 0x22 # g @ CHR 0x22 # rest \<and> (\<forall>c\<in>set w. is_ws c) \<and>
           g \<noteq> [] \<and> CHR 0x22 \<notin> set g \<and> n = length key + length w + length g + 2"
proof -
  let ?s1 = "drop (length key) t"
  let ?s2 = "drop 1 (dropWhile is_ws ?s1)"
  let ?s3 = "dropWhile (\<lambda>c. c \<noteq> CHR 0x22) ?s2"
  from assms have k: "prefix key t" and q1: "prefix [CHR 0x22] (dropWhile is_ws ?s1)"
    and g: "g = takeWhile (\<lambda>c. c \<noteq> CHR 0x22) ?s2" "g \<noteq> []"
    and q2: "prefix [CHR 0x22] ?s3" and n: "n = length t - length (drop 1 ?s3)"
    by (auto simp: kv_regex_def lit_Some split: option.splits if_splits)
  have hd_drop: "xs = CHR 0x22 # drop 1 xs" if "prefix [CHR 0x22] xs" for xs
    using that by (cases xs) auto
  have t1: "t = key @ ?s1" using k by (auto simp: prefix_def)
  have "?s1 = takeWhile is_ws ?s1 @ dropWhile is_ws ?s1" by simp
  also have "dropWhile is_ws ?s1 = CHR 0x22 # ?s2" using q1 by (rule hd_drop)
  finally have t2: "?s1 = takeWhile is_ws ?s1 @ CHR 0x22 # ?s2" .
  have "?s2 = g @ ?s3" unfolding g(1) by simp
  also have "?s3 = CHR 0x22 # drop 1 ?s3" using q2 by (rule hd_drop)
  finally have t3: "?s2 = g @ CHR 0x22 # drop 1 ?s3" .
  define w where "w = takeWhile is_ws ?s1"
  define rest where "rest = drop 1 ?s3"
  have t: "t = key @ w @ CHR 0x22 # g @ CHR 0x22 # rest"
    unfolding w_def rest_def by (subst t1, subst t2, subst t3) (rule refl)
  have w: "\<forall>c\<in>set w. is_ws c" unfolding w_def by (auto dest: set_takeWhileD)
  have gq: "CHR 0x22 \<notin> set g" unfolding g(1) by (auto dest: set_takeWhileD)
  have "length t = length key + length w + length g + 2 + length rest"
    by (subst t) simp
  moreover have "n = length t - length rest" using n by (simp only: rest_def)
  ultimately have "n = length key + length w + length g + 2" by arith
  with t w gq g(2) show ?thesis by blast
qed

lemma is_ws_quote [simp]: "\<not> is_ws (CHR 0x22)"
  by (simp add: is_ws_def)

lemma kv_regex_SomeI:
  assumes "\<forall>c\<in>set w. is_ws c" and "g \<noteq> []" and "CHR 0x22 \<notin> set g"
  shows "kv_regex key (key @ w @ CHR 0x22 # g @ CHR 0x22 # rest)
           = Some (g, length key + length w + length g + 2)"
proof -
  have 1: "dropWhile is_ws (w @ CHR 0x22 # g @ CHR 0x22 # rest) = CHR 0x22 # g @ CHR 0x22 # rest"
    using assms(1) by (simp add: dropWhile_append)
  have 2: "takeWhile (\<lambda>c. c \<noteq> CHR 0x22) (g @ CHR 0x22 # rest) = g"
    using assms(3) by (simp add: takeWhile_append)
  have 3: "dropWhile (\<lambda>c. c \<noteq> CHR 0x22) (g @ CHR 0x22 # rest) = CHR 0x22 # rest"
    using assms(3) by (simp add: dropWhile_append)
  show ?thesis
    by (simp add: kv_regex_def lit_def 1 2 3 assms(2))
qed

lemma kv_regex_extend:
  assumes "kv_regex key t = Some (g, n)"
  shows "kv_regex key (t @ e) = Some (g, n) \<and> n \<le> length t \<and> 0 < n"
proof -
  from kv_regex_SomeD [OF assms] obtain w rest where
    t: "t = key @ w @ CHR 0x22 # g @ CHR 0x22 # rest" and w: "\<forall>c\<in>set w. is_ws c"
    and g: "g \<noteq> []" "CHR 0x22 \<notin> set g" and n: "n = length key + length w + length g + 2"
    by blast
  have "t @ e = key @ w @ CHR 0x22 # g @ CHR 0x22 # (rest @ e)" by (simp add: t)
  then have "kv_regex key (t @ e) = Some (g, n)"
    using kv_regex_SomeI [OF w g, of key "rest @ e"] n by simp
  moreover have "n \<le> length t" by (subst t) (simp add: n)
  ultimately show ?thesis using n by simp
qed


lemma kv_regex_quotes:
  assumes "kv_regex key t = Some (g, n)"
  shows "count_list key (CHR 0x22) + 2 \<le> count_list t (CHR 0x22)"
proof -
  from kv_regex_SomeD [OF assms] obtain w rest where
    "t = key @ w @ CHR 0x22 # g @ CHR 0x22 # rest" by blast
  then show ?thesis by simp
qed

lemma append_eq_longer:
  assumes "a @ b = x @ y" and "length x \<le> length a"
  shows "\<exists>z. a = x @ z"
proof -
  from assms have "x = take (length x) a"
    by (simp add: append_eq_append_conv_if split: if_splits)
  then have "a = x @ drop (length x) a"
    by (metis append_take_drop_id)
  then show ?thesis ..
qed

lemma kv_regex_late:
  assumes "kv_regex key r = None" and "kv_regex key (r @ e) = Some (g, n)"
  shows "\<exists>w. prefix r (key @ w @ CHR 0x22 # g) \<and> (\<forall>c\<in>set w. is_ws c) \<and> CHR 0x22 \<notin> set g"
proof -
  from kv_regex_SomeD [OF assms(2)] obtain w rest where
    re: "r @ e = key @ w @ CHR 0x22 # g @ CHR 0x22 # rest" and w: "\<forall>c\<in>set w. is_ws c"
    and g: "g \<noteq> []" "CHR 0x22 \<notin> set g"
    by blast
  let ?X = "key @ w @ CHR 0x22 # g"
  from re have re': "r @ e = ?X @ CHR 0x22 # rest" by simp
  have "length r \<le> length ?X"
  proof (rule ccontr)
    assume "\<not> length r \<le> length ?X"
    then have "length ?X < length r" by simp
    then have "length (?X @ [CHR 0x22]) \<le> length r" by simp
    moreover from re' have "r @ e = (?X @ [CHR 0x22]) @ rest" by simp
    ultimately obtain rest' where "r = (?X @ [CHR 0x22]) @ rest'"
      using append_eq_longer by blast
    then have "r = ?X @ CHR 0x22 # rest'" by simp
    then have "r = key @ w @ CHR 0x22 # g @ CHR 0x22 # rest'" by simp
    with kv_regex_SomeI [OF w g, of key rest'] assms(1) show False by simp
  qed
  with re' have "prefix r ?X"
    using append_eq_longer [of ?X "CHR 0x22 # rest" r e] by (auto simp: prefix_def)
  with w g show ?thesis by blast
qed

lemma count_list_prefix: "prefix xs ys \<Longrightarrow> count_list xs c \<le> count_list ys c"
  by (auto simp: prefix_def)

lemma count_list_suffix: "suffix xs ys \<Longrightarrow> count_list xs c \<le> count_list ys c"
  by (auto simp: suffix_def)

lemma matches_g_kv_prefix:
  assumes key: "key = CHR 0x22 # key'"
  shows "prefix (matches_g (kv_regex key) r) (matches_g (kv_regex key) (r @ e))"
proof (induction r rule: measure_induct_rule [where f = length])
  case (less r)
  show ?case
  proof (cases r)
    case Nil
    then show ?thesis by simp
  next
    case (Cons c cs)
    show ?thesis
    proof (cases "kv_regex key r")
      case (Some x)
      obtain g n where x: "x = (g, n)" by (cases x)
      from kv_regex_extend [of key r g n e] Some x
      have ext: "kv_regex key (r @ e) = Some (g, n)" and n: "n \<le> length r" "0 < n" by auto
      from n Cons have d: "drop (n - 1) (cs @ e) = drop (n - 1) cs @ e" by simp
      have "prefix (matches_g (kv_regex key) (drop (n - 1) cs))
                   (matches_g (kv_regex key) (drop (n - 1) cs @ e))"
        by (rule less.IH) (simp add: Cons)
      with Some x ext d show ?thesis by (simp add: Cons)
    next
      case None
      show ?thesis
      proof (cases "kv_regex key (r @ e)")
        case None': None
        have "prefix (matches_g (kv_regex key) cs) (matches_g (kv_regex key) (cs @ e))"
          by (rule less.IH) (simp add: Cons)
        with None None' show ?thesis by (simp add: Cons)
      next
        case (Some x)
        obtain g n where x: "x = (g, n)" by (cases x)
        from kv_regex_late [OF None] Some x obtain w where
          p: "prefix r (key @ w @ CHR 0x22 # g)" and w: "\<forall>c\<in>set w. is_ws c"
          and g: "CHR 0x22 \<notin> set g" by blast
        from w have w0: "count_list w (CHR 0x22) = 0"
          using is_ws_quote by (auto simp: count_list_0_iff)
        from g have g0: "count_list g (CHR 0x22) = 0" by (simp add: count_list_0_iff)
        from p Cons key have c: "c = CHR 0x22" by (simp add: prefix_def)
        from count_list_prefix [OF p, of "CHR 0x22"] w0 g0
        have "count_list r (CHR 0x22) \<le> count_list key (CHR 0x22) + 1" by simp
        with c Cons have cs: "count_list cs (CHR 0x22) \<le> count_list key (CHR 0x22)" by simp
        have "kv_regex key t = None" if "suffix t cs" for t
        proof (cases "kv_regex key t")
          case None
          then show ?thesis .
        next
          case (Some y)
          obtain g2 n2 where "y = (g2, n2)" by (cases y)
          with Some have "count_list key (CHR 0x22) + 2 \<le> count_list t (CHR 0x22)"
            using kv_regex_quotes by blast
          moreover from that have "count_list t (CHR 0x22) \<le> count_list cs (CHR 0x22)"
            by (rule count_list_suffix)
          ultimately show ?thesis using cs by simp
        qed
        then have "matches_g (kv_regex key) cs = []" by (rule matches_g_no_match)
        with None show ?thesis by (simp add: Cons)
      qed
    qed
  qed
qed

lemma push_actions_append:
  "push_actions ok ty pre (vs @ ws) st = push_actions ok ty pre ws (push_actions ok ty pre vs st)"
proof (induction vs arbitrary: st)
  case Nil
  then show ?case by simp
next
  case (Cons v vs)
  obtain seen acts where st: "st = (seen, acts)" by (cases st)
  show ?case unfolding st by (simp add: Cons.IH)
qed

lemma push_actions_prefix:
  assumes "prefix vs vs'"
  shows "prefix (snd (push_actions ok ty pre vs st)) (snd (push_actions ok ty pre vs' st))"
proof -
  from assms obtain ws where "vs' = vs @ ws" by (auto simp: prefix_def)
  then show ?thesis
    using push_actions_grows [of ok ty pre ws "push_actions ok ty pre vs st"]
    by (auto simp: push_actions_append)
qed

lemma extract_actions_queries:
  "\<exists>others. extract_actions ft
      = snd (push_actions (\<lambda>q. True) Query ''q-'' (matches_g queryRegex ft) ({}, [])) @ others \<and>
     (\<forall>a\<in>set others. act_type a = Url)"
proof -
  let ?st1 = "push_actions (\<lambda>q. True) Query ''q-'' (matches_g queryRegex ft) ({}, [])"
  obtain us where us: "snd (structured_actions ft) = snd ?st1 @ us" "\<forall>a\<in>set us. act_type a = Url"
    using push_actions_grows [of "\<lambda>u. True" Url "''u-''" "matches_g urlRegex ft" ?st1]
    unfolding structured_actions_def by auto
  obtain new where n: "extract_actions ft = snd (structured_actions ft) @ new"
    "\<forall>a\<in>set new. act_type a = Url"
    using extract_actions_extends by blast
  from us n have "extract_actions ft = snd ?st1 @ (us @ new)" "\<forall>a\<in>set (us @ new). act_type a = Url"
    by auto
  then show ?thesis by blast
qed

lemma queryRegex_prefix:
  "prefix (matches_g queryRegex r) (matches_g queryRegex (r @ e))"
  unfolding queryRegex_def by (rule matches_g_kv_prefix) simp

lemma urlRegex_prefix:
  "prefix (matches_g urlRegex r) (matches_g urlRegex (r @ e))"
  unfolding urlRegex_def by (rule matches_g_kv_prefix) simp

text \<open>
  C3 (amended). When the reasoning buffer of a text is a prefix of the reasoning buffer of
  an extension of the text, every query activity reported for the text is reported
  unchanged for the extension, and every value carried by a \<^verbatim>\<open>"url": "..."\<close> marker of the
  shorter buffer is still the value of an activity of the extension. Nothing is promised
  for the activities of the bare-URL fallback.
\<close>

theorem activities_kept_by_extension:
  assumes "prefix (thought (parse hostname text isThinking))
                  (thought (parse hostname (text @ ext) isThinking'))"
  shows "(\<forall>a\<in>set (searchActions (parse hostname text isThinking)).
            act_type a = Query \<longrightarrow> a \<in> set (searchActions (parse hostname (text @ ext) isThinking'))) \<and>
         (\<forall>u\<in>set (matches_g urlRegex (thought (parse hostname text isThinking))).
            u \<in> act_content ` set (searchActions (parse hostname (text @ ext) isThinking')))"
proof -
  let ?r = "fullThought text" and ?r' = "fullThought (text @ ext)"
  let ?qs = "\<lambda>ft. snd (push_actions (\<lambda>q. True) Query ''q-'' (matches_g queryRegex ft) ({}, []))"
  from assms obtain x where r': "?r' = ?r @ x" by (auto simp: parse_def prefix_def)
  have pq: "prefix (?qs ?r) (?qs ?r')"
    unfolding r' by (intro push_actions_prefix queryRegex_prefix)
  obtain o1 where o1: "extract_actions ?r = ?qs ?r @ o1" "\<forall>a\<in>set o1. act_type a = Url"
    using extract_actions_queries by blast
  obtain o2 where o2: "extract_actions ?r' = ?qs ?r' @ o2"
    using extract_actions_queries by blast
  have 1: "a \<in> set (extract_actions ?r')" if "a \<in> set (extract_actions ?r)" "act_type a = Query" for a
  proof -
    from that o1 have "a \<in> set (?qs ?r)" by auto
    with pq have "a \<in> set (?qs ?r')" using set_mono_prefix by blast
    with o2 show ?thesis by simp
  qed
  have 2: "u \<in> act_content ` set (extract_actions ?r')" if "u \<in> set (matches_g urlRegex ?r)" for u
  proof -
    from that have "u \<in> set (matches_g urlRegex ?r')"
      unfolding r' using urlRegex_prefix set_mono_prefix by blast
    then show ?thesis by (rule url_marker_in_actions)
  qed
  from 1 2 show ?thesis by (simp add: parse_def)
qed

theorem activities_kept_by_extension_witness:
  \<open>prefix (thought (parse example_hostname ''<think>"query": "zz" "url": "https://a.b/c"'' True))
     (thought (parse example_hostname
        (''<think>"query": "zz" "url": "https://a.b/c"'' @ '' "query": "https://a.b/c"'') True)) \<and>
   searchActions (parse example_hostname ''<think>"query": "zz" "url": "https://a.b/c"'' True)
     = [\<lparr>act_type = Query, act_content = ''zz'', act_id = ''q-0''\<rparr>,
        \<lparr>act_type = Url, act_content = ''https://a.b/c'', act_id = ''u-1''\<rparr>] \<and>
   \<lparr>act_type = Query, act_content = ''zz'', act_id = ''q-0''\<rparr>
     \<in> set (searchActions (parse example_hostname
        (''<think>"query": "zz" "url": "https://a.b/c"'' @ '' "query": "https://a.b/c"'') True)) \<and>
   ''https://a.b/c''
     \<in> act_content ` set (searchActions (parse example_hostname
        (''<think>"query": "zz" "url": "https://a.b/c"'' @ '' "query": "https://a.b/c"'') True))\<close>
proof -
  let ?t = \<open>''<think>"query": "zz" "url": "https://a.b/c"''\<close>
  let ?e = \<open>'' "query": "https://a.b/c"''\<close>
  have h: "prefix (thought (parse example_hostname ?t True))
     (thought (parse example_hostname (?t @ ?e) True))"
    by code_simp
  have v: "searchActions (parse example_hostname ?t True)
     = [\<lparr>act_type = Query, act_content = ''zz'', act_id = ''q-0''\<rparr>,
        \<lparr>act_type = Url, act_content = ''https://a.b/c'', act_id = ''u-1''\<rparr>]"
    by code_simp
  have m: "matches_g urlRegex (thought (parse example_hostname ?t True)) = [''https://a.b/c'']"
    by code_simp
  note k = activities_kept_by_extension [OF h]
  from k v have 1: "\<lparr>act_type = Query, act_content = ''zz'', act_id = ''q-0''\<rparr>
     \<in> set (searchActions (parse example_hostname (?t @ ?e) True))"
    by simp
  from k m have 2: "''https://a.b/c''
     \<in> act_content ` set (searchActions (parse example_hostname (?t @ ?e) True))"
    by simp
  from h v 1 2 show ?thesis by blast
qed

text \<open>
  C3 as stated fails in three ways. A bare URL that is still growing is reported by the
  fallback with its current value, and the longer text reports the longer URL only. A url
  activity becomes a query activity when a query marker with the same value arrives. And
  a later reasoning span is inserted before a leaked tool call, which changes a marker
  that ran across the two.
\<close>

theorem fallback_activity_lost_by_extension:
  \<open>searchActions (parse example_hostname ''<think>https://example.com/a'' True)
     = [\<lparr>act_type = Url, act_content = ''https://example.com/a'', act_id = ''u-raw-0''\<rparr>] \<and>
   searchActions (parse example_hostname (''<think>https://example.com/a'' @ ''b'') True)
     = [\<lparr>act_type = Url, act_content = ''https://example.com/ab'', act_id = ''u-raw-0''\<rparr>] \<and>
   searchActions (parse example_hostname ''<think>"url": "zz"'' True)
     = [\<lparr>act_type = Url, act_content = ''zz'', act_id = ''u-0''\<rparr>] \<and>
   searchActions (parse example_hostname (''<think>"url": "zz"'' @ '' "query": "zz"'') True)
     = [\<lparr>act_type = Query, act_content = ''zz'', act_id = ''q-0''\<rparr>] \<and>
   searchActions (parse example_hostname ''<think>"query": "a</think><|start|>"'' True)
     = [\<lparr>act_type = Query, act_content = ''a\<newline>\<newline><|start|>'', act_id = ''q-0''\<rparr>] \<and>
   searchActions (parse example_hostname (''<think>"query": "a</think><|start|>"'' @ ''<think>b'') True)
     = [\<lparr>act_type = Query, act_content = ''a\<newline>\<newline>b\<newline>\<newline><|start|>'', act_id = ''q-0''\<rparr>]\<close>
  by code_simp

subsection \<open>From the stream to the parser\<close>

lemma emit_events_append:
  "emit_events b (ds @ es) =
     (fst (emit_events b ds) @ fst (emit_events (snd (emit_events b ds)) es),
      snd (emit_events (snd (emit_events b ds)) es))"
  by (induction ds arbitrary: b) (auto split: prod.splits)

lemma fullContent_append: "fullContent (ts @ us) = fullContent ts @ fullContent us"
  by (simp add: fullContent_def)

lemma closing_no_overlap:
  assumes "prefix ''</think>'' (r @ ''</think>'' @ a)" and "r \<noteq> []"
  shows "prefix ''</think>'' r"
proof -
  from assms(1) consider "prefix ''</think>'' r"
    | us where "''</think>'' = r @ us" "prefix us (''</think>'' @ a)"
    unfolding prefix_append by blast
  then show ?thesis
  proof cases
    case 1
    then show ?thesis .
  next
    case 2
    from assms(2) obtain c r' where r: "r = c # r'" by (cases r) auto
    with 2(1) have "''/think>'' = r' @ us" by simp
    then have "set us \<subseteq> set ''/think>''" by (metis set_append Un_upper2)
    moreover have "us = [] \<or> hd us = CHR ''<'' \<and> hd us \<in> set us"
      using 2(2) by (cases us) auto
    ultimately have "us = []" by auto
    with 2(1) show ?thesis by simp
  qed
qed

lemma take_until_closing:
  "\<not> sublist ''</think>'' r \<Longrightarrow> take_until ''</think>'' (r @ ''</think>'' @ a) = r"
proof (induction r)
  case Nil
  then show ?case by simp
next
  case (Cons c r)
  have "\<not> prefix ''</think>'' ((c # r) @ ''</think>'' @ a)"
    using closing_no_overlap [of "c # r" a] Cons.prems by auto
  moreover from Cons.prems have "\<not> sublist ''</think>'' r"
    by (simp add: sublist_Cons_right)
  ultimately show ?case using Cons.IH by simp
qed

lemma thoughtRegex_span:
  assumes "\<not> sublist ''</think>'' r"
  shows "thoughtRegex ((''<think>'' @ r @ ''</think>'') @ a)
           = Some (r, length (''<think>'' @ r @ ''</think>''))"
  using take_until_closing [OF assms, of a]
  by (simp add: thoughtRegex_def lit_def)

lemma replace_g_at_match:
  assumes "m (x @ rest) = Some (g, length x)" and "x \<noteq> []"
  shows "replace_g m f (x @ rest) = f g @ replace_g m f rest"
proof -
  from assms(2) obtain c x' where x: "x = c # x'" by (cases x) auto
  with assms(1) show ?thesis by simp
qed

lemma matches_g_at_match:
  assumes "m (x @ rest) = Some (g, length x)" and "x \<noteq> []"
  shows "matches_g m (x @ rest) = g # matches_g m rest"
proof -
  from assms(2) obtain c x' where x: "x = c # x'" by (cases x) auto
  with assms(1) show ?thesis by simp
qed

lemma think_then_answer_parts:
  assumes "\<not> sublist ''</think>'' r" and "\<not> sublist ''<think>'' a" and "\<not> sublist ''<|start|>'' a"
  shows "collect_thoughts ((''<think>'' @ r @ ''</think>'') @ a) = [r] \<and>
         strip_thoughts ((''<think>'' @ r @ ''</think>'') @ a) = a"
proof -
  let ?x = "''<think>'' @ r @ ''</think>''"
  have t: "thoughtRegex t = None" if "suffix t a" for t
    using assms(2) that by (rule no_think_no_match)
  have l: "leakageRegex t = None" if "suffix t a" for t
    using assms(3) that by (rule no_start_no_match)
  have x: "?x \<noteq> []" by simp
  have s: "thoughtRegex (?x @ a) = Some (r, length ?x)"
    using assms(1) by (rule thoughtRegex_span)
  have 1: "replace_g thoughtRegex (\<lambda>g. []) (?x @ a) = a"
    using replace_g_at_match [of thoughtRegex ?x a r "\<lambda>g. []", OF s x]
      replace_g_no_match [of a thoughtRegex "\<lambda>g. []"] t by simp
  have 2: "matches_g thoughtRegex (?x @ a) = [r]"
    using matches_g_at_match [of thoughtRegex ?x a r, OF s x]
      matches_g_no_match [of a thoughtRegex] t by simp
  have 3: "replace_g leakageRegex (\<lambda>g. []) a = a" using l by (rule replace_g_no_match)
  have 4: "matches_g leakageRegex a = []" using l by (rule matches_g_no_match)
  show ?thesis
    unfolding collect_thoughts_def strip_thoughts_def 1 2 3 4 by simp
qed

lemma handle_line_classify:
  "handle_line dec b l =
     (case classify_line dec l of
        Skipped \<Rightarrow> Some ([], b) | Done \<Rightarrow> None | Event d \<Rightarrow> Some (emit d b))"
  by (auto simp: handle_line_def classify_line_def Let_def split: option.splits)

lemma process_lines_stream_events:
  "process_lines dec b ls =
     (fst (emit_events b (stream_events dec ls)), snd (emit_events b (stream_events dec ls)),
      \<exists>l\<in>set ls. classify_line dec l = Done)"
proof (induction ls arbitrary: b)
  case Nil
  then show ?case by simp
next
  case (Cons l ls)
  show ?case
    by (cases "classify_line dec l")
       (auto simp: handle_line_classify Cons.IH split: prod.splits)
qed

lemma emit_reasoning_only:
  assumes "\<forall>d\<in>set es. \<not> truthy (content d)"
  shows "fullContent (fst (emit_events b es))
      = (if b \<or> concat (map (\<lambda>d. delta_text (reasoning d)) es) = []
         then concat (map (\<lambda>d. delta_text (reasoning d)) es)
         else ''<think>'' @ concat (map (\<lambda>d. delta_text (reasoning d)) es)) \<and>
    snd (emit_events b es) = (b \<or> concat (map (\<lambda>d. delta_text (reasoning d)) es) \<noteq> [])"
  using assms
proof (induction es arbitrary: b)
  case Nil
  then show ?case by (simp add: fullContent_def)
next
  case (Cons d es)
  then have c: "\<not> truthy (content d)" and rest: "\<forall>d\<in>set es. \<not> truthy (content d)" by auto
  show ?case
  proof (cases "truthy (reasoning d)")
    case False
    then have "delta_text (reasoning d) = []"
      by (auto simp: truthy_def delta_text_def split: option.splits)
    moreover from False c have "emit d b = ([], b)" by (simp add: emit_def)
    ultimately show ?thesis using Cons.IH [OF rest, of b]
      by (auto simp: fullContent_def split: prod.splits)
  next
    case True
    then have t: "delta_text (reasoning d) = the (reasoning d)" "the (reasoning d) \<noteq> []"
      by (auto simp: truthy_def delta_text_def split: option.splits)
    from True c have "emit d b
        = ((if \<not> b then [OpenThink] else []) @ [ReasoningText (the (reasoning d))], True)"
      by (simp add: emit_def)
    with t show ?thesis using Cons.IH [OF rest, of True]
      by (auto simp: fullContent_def split: prod.splits)
  qed
qed

lemma emit_answer_only:
  assumes "\<forall>d\<in>set es. \<not> truthy (reasoning d)"
  shows "fullContent (fst (emit_events b es))
      = (if b \<and> concat (map (\<lambda>d. delta_text (content d)) es) \<noteq> []
         then ''</think>'' @ concat (map (\<lambda>d. delta_text (content d)) es)
         else concat (map (\<lambda>d. delta_text (content d)) es)) \<and>
    snd (emit_events b es) = (b \<and> concat (map (\<lambda>d. delta_text (content d)) es) = [])"
  using assms
proof (induction es arbitrary: b)
  case Nil
  then show ?case by (simp add: fullContent_def)
next
  case (Cons d es)
  then have c: "\<not> truthy (reasoning d)" and rest: "\<forall>d\<in>set es. \<not> truthy (reasoning d)" by auto
  show ?case
  proof (cases "truthy (content d)")
    case False
    then have "delta_text (content d) = []"
      by (auto simp: truthy_def delta_text_def split: option.splits)
    moreover from False c have "emit d b = ([], b)" by (simp add: emit_def)
    ultimately show ?thesis using Cons.IH [OF rest, of b]
      by (auto simp: fullContent_def split: prod.splits)
  next
    case True
    then have t: "delta_text (content d) = the (content d)" "the (content d) \<noteq> []"
      by (auto simp: truthy_def delta_text_def split: option.splits)
    from True c have "emit d b
        = ((if b then [CloseThink] else []) @ [AnswerText (the (content d))], False)"
      by (simp add: emit_def)
    with t show ?thesis using Cons.IH [OF rest, of False]
      by (auto simp: fullContent_def split: prod.splits)
  qed
qed

lemma streamChat_roundtrip_text:
  assumes "stream_events dec (butlast (split_nl (concat chunks))) = es1 @ es2"
    and "\<forall>d\<in>set es1. \<not> truthy (content d)"
    and "\<forall>d\<in>set es2. \<not> truthy (reasoning d)"
    and R: "R = concat (map (\<lambda>d. delta_text (reasoning d)) es1)"
    and A: "A = concat (map (\<lambda>d. delta_text (content d)) es2)"
  shows "fullContent (fst (streamChat dec chunks fin))
           = (if R = [] then A else (''<think>'' @ R @ ''</think>'') @ A) \<or>
         A = [] \<and> fullContent (fst (streamChat dec chunks fin)) = ''<think>'' @ R"
proof -
  let ?ls = "butlast (split_nl (concat chunks))"
  let ?b1 = "snd (emit_events False es1)"
  let ?E = "fst (emit_events False (es1 @ es2))"
  let ?r = "snd (emit_events False (es1 @ es2))"
  obtain ret where p: "process_lines dec False ?ls = (?E, ?r, ret)"
    using process_lines_stream_events [of dec False ?ls] by (simp add: assms(1))
  have s: "fullContent (fst (streamChat dec chunks fin)) = fullContent ?E \<or>
      ?r \<and> fullContent (fst (streamChat dec chunks fin)) = fullContent ?E @ ''</think>''"
    by (cases fin) (auto simp: streamChat_def read_loop_concat p fullContent_def)
  have b1: "?b1 = (R \<noteq> [])" and t1: "fullContent (fst (emit_events False es1))
      = (if R = [] then [] else ''<think>'' @ R)"
    using emit_reasoning_only [OF assms(2), of False] unfolding R by simp_all
  have e: "emit_events False (es1 @ es2) =
      (fst (emit_events False es1) @ fst (emit_events ?b1 es2), snd (emit_events ?b1 es2))"
    by (rule emit_events_append)
  have t2: "fullContent (fst (emit_events b es2)) = (if b \<and> A \<noteq> [] then ''</think>'' @ A else A)"
    and r2: "snd (emit_events b es2) = (b \<and> A = [])" for b
    using emit_answer_only [OF assms(3), of b] unfolding A by simp_all
  have E: "fullContent ?E = (if R = [] then A
      else ''<think>'' @ R @ (if A = [] then [] else ''</think>'' @ A))"
    unfolding e by (simp add: fullContent_append t1 t2 b1)
  have r: "?r = (R \<noteq> [] \<and> A = [])"
    unfolding e by (simp add: r2 b1)
  from s show ?thesis
  proof
    assume "fullContent (fst (streamChat dec chunks fin)) = fullContent ?E"
    with E show ?thesis by (cases "R = []"; cases "A = []") simp_all
  next
    assume "?r \<and> fullContent (fst (streamChat dec chunks fin)) = fullContent ?E @ ''</think>''"
    with E r show ?thesis by simp
  qed
qed

lemma has_citation_iff:
  "has_citation s \<longleftrightarrow>
     (\<exists>t. suffix t s \<and> (citationLinkRegex t \<noteq> None \<or> citationMarkdownRegex t \<noteq> None))"
proof (induction s)
  case Nil
  then show ?case
    by (auto simp: citationLinkRegex_def citationMarkdownRegex_def lit_def)
next
  case (Cons c cs)
  show ?case by (auto simp: Cons.IH suffix_Cons)
qed

lemma no_citation_unwrap:
  assumes "\<not> has_citation s"
  shows "unwrap_citations s = s"
proof -
  have n: "\<not> (citationLinkRegex t \<noteq> None \<or> citationMarkdownRegex t \<noteq> None)"
    if "suffix t s" for t
    using assms that has_citation_iff by blast
  have 1: "citationLinkRegex t = None" if "suffix t s" for t
    using n [OF that] by blast
  have 2: "citationMarkdownRegex t = None" if "suffix t s" for t
    using n [OF that] by blast
  have "replace_g citationLinkRegex cite s = s" using 1 by (rule replace_g_no_match)
  moreover have "replace_g citationMarkdownRegex cite s = s" using 2 by (rule replace_g_no_match)
  ultimately show ?thesis by (simp add: unwrap_citations_def)
qed

lemma take_until_absent: "\<not> sublist pat r \<Longrightarrow> take_until pat r = r"
  by (induction r) (auto simp: sublist_Cons_right)

lemma open_span_parts:
  assumes "\<not> sublist ''</think>'' r"
  shows "collect_thoughts (''<think>'' @ r) = [r] \<and> strip_thoughts (''<think>'' @ r) = []"
proof -
  have m: "thoughtRegex (''<think>'' @ r @ []) = Some (r, length (''<think>'' @ r))"
    using take_until_absent [OF assms] by (simp add: thoughtRegex_def lit_def)
  have 1: "replace_g thoughtRegex (\<lambda>g. []) ((''<think>'' @ r) @ []) = []"
    using replace_g_at_match [of thoughtRegex "''<think>'' @ r" "[]" r "\<lambda>g. []"] m by simp
  have 2: "matches_g thoughtRegex ((''<think>'' @ r) @ []) = [r]"
    using matches_g_at_match [of thoughtRegex "''<think>'' @ r" "[]" r] m by simp
  from 1 2 show ?thesis
    by (simp add: collect_thoughts_def strip_thoughts_def)
qed

text \<open>
  C2 (amended). Let the complete records of the byte stream, read up to the \<^verbatim>\<open>[DONE]\<close>
  record or to the end and leaving out the lines that the loop skips, carry first events
  with no answer delta and then events with no reasoning delta, however the stream is
  cut into chunks and however it ends. If the concatenated reasoning deltas do not contain
  \<^verbatim>\<open></think>\<close>, the concatenated answer deltas contain neither \<^verbatim>\<open><think>\<close> nor \<^verbatim>\<open><|start|>\<close>,
  and the reassembled text holds no citation in parentheses, then the parser applied to the
  reassembled text returns the trimmed concatenation of the reasoning deltas as reasoning
  and the trimmed concatenation of the answer deltas as body; the reasoning is not empty
  exactly when the reasoning deltas hold a character that is not white space.
\<close>

theorem streamChat_parse_roundtrip:
  assumes "stream_events dec (butlast (split_nl (concat chunks))) = es1 @ es2"
    and "\<forall>d\<in>set es1. \<not> truthy (content d)"
    and "\<forall>d\<in>set es2. \<not> truthy (reasoning d)"
    and "\<not> str_includes (concat (map (\<lambda>d. delta_text (reasoning d)) es1)) ''</think>''"
    and "\<not> str_includes (concat (map (\<lambda>d. delta_text (content d)) es2)) ''<think>''"
    and "\<not> str_includes (concat (map (\<lambda>d. delta_text (content d)) es2)) ''<|start|>''"
    and "\<not> has_citation (fullContent (fst (streamChat dec chunks fin)))"
  shows "thought (parse hostname (fullContent (fst (streamChat dec chunks fin))) isThinking)
           = trim (concat (map (\<lambda>d. delta_text (reasoning d)) es1)) \<and>
         main (parse hostname (fullContent (fst (streamChat dec chunks fin))) isThinking)
           = trim (concat (map (\<lambda>d. delta_text (content d)) es2)) \<and>
         (thought (parse hostname (fullContent (fst (streamChat dec chunks fin))) isThinking) \<noteq> []
           \<longleftrightarrow> (\<exists>c\<in>set (concat (map (\<lambda>d. delta_text (reasoning d)) es1)). \<not> is_ws c))"
proof -
  define R where "R = concat (map (\<lambda>d. delta_text (reasoning d)) es1)"
  define A where "A = concat (map (\<lambda>d. delta_text (content d)) es2)"
  define T where "T = fullContent (fst (streamChat dec chunks fin))"
  note rt = streamChat_roundtrip_text [OF assms(1-3) R_def A_def, of fin, folded T_def]
  from assms(4-6) have h: "\<not> sublist ''</think>'' R" "\<not> sublist ''<think>'' A"
    "\<not> sublist ''<|start|>'' A"
    by (simp_all add: str_includes_sublist R_def A_def)
  from assms(7) have u: "unwrap_citations T = T" unfolding T_def by (rule no_citation_unwrap)
  from rt consider "R = []" "T = A" | "R \<noteq> []" "T = (''<think>'' @ R @ ''</think>'') @ A"
    | "A = []" "T = ''<think>'' @ R"
    by (cases "R = []") auto
  then have p: "thought (parse hostname T isThinking) = trim R \<and>
      main (parse hostname T isThinking) = trim A"
  proof cases
    case 1
    from h have "collect_thoughts A = [] \<and> strip_thoughts A = A"
      using no_markers_nothing_collected [of A] by simp
    with 1 u show ?thesis
      by (simp add: parse_def fullThought_def trim_def)
  next
    case 2
    have "collect_thoughts T = [R] \<and> strip_thoughts T = A"
      unfolding 2(2) using h(1-3) by (rule think_then_answer_parts)
    with u show ?thesis by (simp add: parse_def fullThought_def)
  next
    case 3
    have "collect_thoughts T = [R] \<and> strip_thoughts T = []"
      unfolding 3(2) using h(1) by (rule open_span_parts)
    with u 3(1) show ?thesis by (simp add: parse_def fullThought_def trim_def)
  qed
  moreover from p have "thought (parse hostname T isThinking) \<noteq> [] \<longleftrightarrow> (\<exists>c\<in>set R. \<not> is_ws c)"
    by (simp add: trim_empty_iff)
  ultimately show ?thesis unfolding R_def A_def T_def by blast
qed

theorem streamChat_parse_roundtrip_witness:
  \<open>stream_events example_dec (butlast (split_nl (concat
      [''data: {"choices":[{"delta":{"content":"","reasoning":"hm"}}]}\<newline>\<newline>: OPENROUTER PROCESSING\<newline>data: {"choi'',
       ''ces":[{"delta":{"content":"f(x) = 1"}}]}\<newline>\<newline>data: [DONE]\<newline>\<newline>''])))
     = [\<lparr>reasoning = Some ''hm'', content = Some []\<rparr>] @
       [\<lparr>reasoning = None, content = Some ''f(x) = 1''\<rparr>] \<and>
   streamChat example_dec
      [''data: {"choices":[{"delta":{"content":"","reasoning":"hm"}}]}\<newline>\<newline>: OPENROUTER PROCESSING\<newline>data: {"choi'',
       ''ces":[{"delta":{"content":"f(x) = 1"}}]}\<newline>\<newline>data: [DONE]\<newline>\<newline>''] ReadDone
     = ([OpenThink, ReasoningText ''hm'', CloseThink, AnswerText ''f(x) = 1''], ReturnedAtDone) \<and>
   thought (parse example_hostname (fullContent (fst (streamChat example_dec
      [''data: {"choices":[{"delta":{"content":"","reasoning":"hm"}}]}\<newline>\<newline>: OPENROUTER PROCESSING\<newline>data: {"choi'',
       ''ces":[{"delta":{"content":"f(x) = 1"}}]}\<newline>\<newline>data: [DONE]\<newline>\<newline>''] ReadDone))) False)
     = ''hm'' \<and>
   main (parse example_hostname (fullContent (fst (streamChat example_dec
      [''data: {"choices":[{"delta":{"content":"","reasoning":"hm"}}]}\<newline>\<newline>: OPENROUTER PROCESSING\<newline>data: {"choi'',
       ''ces":[{"delta":{"content":"f(x) = 1"}}]}\<newline>\<newline>data: [DONE]\<newline>\<newline>''] ReadDone))) False)
     = ''f(x) = 1''\<close>
proof -
  let ?chunks = \<open>[''data: {"choices":[{"delta":{"content":"","reasoning":"hm"}}]}\<newline>\<newline>: OPENROUTER PROCESSING\<newline>data: {"choi'',
       ''ces":[{"delta":{"content":"f(x) = 1"}}]}\<newline>\<newline>data: [DONE]\<newline>\<newline>'']\<close>
  let ?es1 = "[\<lparr>reasoning = Some ''hm'', content = Some []\<rparr>]"
  let ?es2 = "[\<lparr>reasoning = None, content = Some ''f(x) = 1''\<rparr>]"
  have h1: "stream_events example_dec (butlast (split_nl (concat ?chunks))) = ?es1 @ ?es2"
    by code_simp
  have h2: "\<forall>d\<in>set ?es1. \<not> truthy (content d)" by (simp add: truthy_def)
  have h3: "\<forall>d\<in>set ?es2. \<not> truthy (reasoning d)" by (simp add: truthy_def)
  have h4: "\<not> str_includes (concat (map (\<lambda>d. delta_text (reasoning d)) ?es1)) ''</think>''"
    by code_simp
  have h5: "\<not> str_includes (concat (map (\<lambda>d. delta_text (content d)) ?es2)) ''<think>''"
    by code_simp
  have h6: "\<not> str_includes (concat (map (\<lambda>d. delta_text (content d)) ?es2)) ''<|start|>''"
    by code_simp
  have h7: "\<not> has_citation (fullContent (fst (streamChat example_dec ?chunks ReadDone)))"
    by code_simp
  have s: "streamChat example_dec ?chunks ReadDone
     = ([OpenThink, ReasoningText ''hm'', CloseThink, AnswerText ''f(x) = 1''], ReturnedAtDone)"
    by code_simp
  have v: "trim (concat (map (\<lambda>d. delta_text (reasoning d)) ?es1)) = ''hm''"
    "trim (concat (map (\<lambda>d. delta_text (content d)) ?es2)) = ''f(x) = 1''"
    by code_simp+
  note t = streamChat_parse_roundtrip [OF h1 h2 h3 h4 h5 h6 h7, of example_hostname False]
  from t v have 1: "thought (parse example_hostname
      (fullContent (fst (streamChat example_dec ?chunks ReadDone))) False) = ''hm''"
    by (simp only:)
  from t v have 2: "main (parse example_hostname
      (fullContent (fst (streamChat example_dec ?chunks ReadDone))) False) = ''f(x) = 1''"
    by (simp only:)
  from h1 s 1 2 show ?thesis by blast
qed

text \<open>
  C2 as stated fails in five ways: the parser trims the reasoning, it unwraps a citation
  in parentheses in the body, a reasoning delta that holds \<^verbatim>\<open></think>\<close> ends the span
  early, an answer delta that holds \<^verbatim>\<open><think>\<close> opens a second span, and an answer delta
  that holds \<^verbatim>\<open><|start|>\<close> is taken for a leaked tool call.
\<close>

theorem streamChat_parse_roundtrip_trims:
  \<open>fullContent (fst (streamChat example_dec
      [''data: {"choices":[{"delta":{"reasoning":" so"}}]}\<newline>'',
       ''data: {"choices":[{"delta":{"content":"(https://a.b/c)"}}]}\<newline>''] ReadDone))
     = ''<think> so</think>(https://a.b/c)'' \<and>
   thought (parse example_hostname ''<think> so</think>(https://a.b/c)'' False) = ''so'' \<and>
   main (parse example_hostname ''<think> so</think>(https://a.b/c)'' False) = ''https://a.b/c'' \<and>
   fullContent (fst (streamChat example_dec
      [''data: {"choices":[{"delta":{"reasoning":"a</think>b"}}]}\<newline>'',
       ''data: {"choices":[{"delta":{"content":"ok"}}]}\<newline>''] ReadDone))
     = ''<think>a</think>b</think>ok'' \<and>
   thought (parse example_hostname ''<think>a</think>b</think>ok'' False) = ''a'' \<and>
   main (parse example_hostname ''<think>a</think>b</think>ok'' False) = ''b</think>ok'' \<and>
   fullContent (fst (streamChat example_dec
      [''data: {"choices":[{"delta":{"reasoning":"hm"}}]}\<newline>'',
       ''data: {"choices":[{"delta":{"content":"see <think> tags"}}]}\<newline>''] ReadDone))
     = ''<think>hm</think>see <think> tags'' \<and>
   thought (parse example_hostname ''<think>hm</think>see <think> tags'' False)
     = ''hm\<newline>\<newline> tags'' \<and>
   main (parse example_hostname ''<think>hm</think>see <think> tags'' False) = ''see'' \<and>
   fullContent (fst (streamChat example_dec
      [''data: {"choices":[{"delta":{"reasoning":"hm"}}]}\<newline>'',
       ''data: {"choices":[{"delta":{"content":"x<|start|>y"}}]}\<newline>''] ReadDone))
     = ''<think>hm</think>x<|start|>y'' \<and>
   thought (parse example_hostname ''<think>hm</think>x<|start|>y'' False)
     = ''hm\<newline>\<newline><|start|>y'' \<and>
   main (parse example_hostname ''<think>hm</think>x<|start|>y'' False) = ''x''\<close>
  by code_simp

subsection \<open>The end of the stream\<close>

lemma opening_before_closing:
  assumes "prefix ''<think>'' (r @ ''</think>'' @ a)" and "r \<noteq> []"
  shows "prefix ''<think>'' r"
proof -
  from assms(1) consider "prefix ''<think>'' r"
    | us where "''<think>'' = r @ us" "prefix us (''</think>'' @ a)"
    unfolding prefix_append by blast
  then show ?thesis
  proof cases
    case 1
    then show ?thesis .
  next
    case 2
    from assms(2) obtain c r' where r: "r = c # r'" by (cases r) auto
    with 2(1) have "''think>'' = r' @ us" by simp
    then have "set us \<subseteq> set ''think>''" by (metis set_append Un_upper2)
    moreover have "us = [] \<or> hd us = CHR ''<'' \<and> hd us \<in> set us"
      using 2(2) by (cases us) auto
    ultimately have "us = []" by auto
    with 2(1) show ?thesis by simp
  qed
qed

lemma unterminated_span_step:
  "\<not> prefix (if b then ''</think>'' else ''<think>'') (c # x) \<Longrightarrow>
   unterminated_span b (c # x) = unterminated_span b x"
  by (cases b) auto

lemma unterminated_span_marker:
  "unterminated_span b ((if b then ''</think>'' else ''<think>'') @ x)
     = unterminated_span (\<not> b) x"
  by (cases b) simp_all

lemma unterminated_span_no_marker:
  "\<not> sublist (if b then ''</think>'' else ''<think>'') acc \<Longrightarrow> unterminated_span b acc = b"
proof (induction acc)
  case Nil
  then show ?case by simp
next
  case (Cons c cs)
  then have "\<not> prefix (if b then ''</think>'' else ''<think>'') (c # cs)"
    and "\<not> sublist (if b then ''</think>'' else ''<think>'') cs"
    by (auto simp: sublist_Cons_right)
  with Cons.IH show ?case by (cases b) auto
qed

text \<open>After a closing marker the text is outside a span, whatever came before.\<close>

lemma unterminated_span_closing:
  "unterminated_span b (x @ ''</think>'' @ a) = unterminated_span False a"
proof (induction x arbitrary: b rule: measure_induct_rule [where f = length])
  case (less x)
  show ?case
  proof (cases x)
    case Nil
    then show ?thesis by (cases b) simp_all
  next
    case (Cons c cs)
    let ?m = "if b then ''</think>'' else ''<think>''"
    show ?thesis
    proof (cases "prefix ?m (x @ ''</think>'' @ a)")
      case True
      have "x \<noteq> []" by (simp add: Cons)
      with True have "prefix ?m x"
        using closing_no_overlap [of x a] opening_before_closing [of x a] by (cases b) simp_all
      then obtain y where y: "x = ?m @ y" by (auto simp: prefix_def)
      have "length y < length x"
        using arg_cong [OF y, of length] by (cases b) simp_all
      then have ih: "unterminated_span (\<not> b) (y @ ''</think>'' @ a) = unterminated_span False a"
        by (rule less.IH)
      have "x @ ''</think>'' @ a = ?m @ (y @ ''</think>'' @ a)"
        by (subst y) simp
      then have "unterminated_span b (x @ ''</think>'' @ a)
          = unterminated_span (\<not> b) (y @ ''</think>'' @ a)"
        using unterminated_span_marker [of b "y @ ''</think>'' @ a"] by simp
      with ih show ?thesis by simp
    next
      case False
      then have "unterminated_span b (x @ ''</think>'' @ a)
          = unterminated_span b (cs @ ''</think>'' @ a)"
        using unterminated_span_step [of b c "cs @ ''</think>'' @ a"] by (simp add: Cons)
      also have "\<dots> = unterminated_span False a"
        using less.IH [of cs b] by (simp add: Cons)
      finally show ?thesis .
    qed
  qed
qed

lemma tag_replay_append:
  "tag_replay b ts = Some r \<Longrightarrow> tag_replay b (ts @ us) = tag_replay r us"
  by (induction b ts rule: tag_replay.induct) (auto split: if_splits)

lemma tag_replay_split:
  "tag_replay b (ts @ us) = Some r \<Longrightarrow>
   \<exists>m. tag_replay b ts = Some m \<and> tag_replay m us = Some r"
  by (induction b ts rule: tag_replay.induct) (auto split: if_splits)

lemma tag_replay_stays_open:
  "CloseThink \<notin> set ts \<Longrightarrow> tag_replay True ts \<noteq> Some False"
proof (induction ts)
  case Nil
  then show ?case by simp
next
  case (Cons t ts)
  then show ?case by (cases t) auto
qed

lemma tag_replay_answers:
  "tag_replay False ts = Some False \<Longrightarrow> CloseThink \<notin> set ts \<Longrightarrow>
   concat (map answer_delta ts) = fullContent ts"
proof (induction ts)
  case Nil
  then show ?case by (simp add: fullContent_def)
next
  case (Cons t ts)
  show ?case
  proof (cases t)
    case OpenThink
    with Cons.prems tag_replay_stays_open [of ts] show ?thesis by simp
  next
    case CloseThink
    with Cons.prems show ?thesis by simp
  next
    case (ReasoningText x)
    with Cons.prems show ?thesis by simp
  next
    case (AnswerText x)
    with Cons.prems Cons.IH show ?thesis by (simp add: fullContent_def)
  qed
qed

text \<open>
  A token sequence that starts and ends outside a span, with every token yielded in the
  right state: its text ends inside an unterminated span exactly when its last answer text
  does.
\<close>

lemma unterminated_span_answer_tail:
  assumes "tag_replay False ts = Some False"
  shows "unterminated_span False (fullContent ts) = unterminated_span False (answer_tail ts)"
proof (cases "CloseThink \<in> set ts")
  case False
  then have "takeWhile (\<lambda>t. t \<noteq> CloseThink) (rev ts) = rev ts"
    by (auto simp: takeWhile_eq_all_conv)
  then have "answer_tail ts = concat (map answer_delta (rev (rev ts)))"
    unfolding answer_tail_def by (rule arg_cong)
  then have "answer_tail ts = concat (map answer_delta ts)" by simp
  with tag_replay_answers [OF assms False] show ?thesis by simp
next
  case True
  then obtain pre post where ts: "ts = pre @ CloseThink # post" and n: "CloseThink \<notin> set post"
    by (auto dest: split_list_last)
  have "takeWhile (\<lambda>t. t \<noteq> CloseThink) (rev post @ CloseThink # rev pre) = rev post"
    using n by (auto simp: takeWhile_tail takeWhile_eq_all_conv)
  then have tail: "answer_tail ts = concat (map answer_delta post)"
    by (simp add: answer_tail_def ts)
  from assms obtain m where "tag_replay m (CloseThink # post) = Some False"
    unfolding ts using tag_replay_split by blast
  then have "tag_replay False post = Some False" by (simp split: if_splits)
  then have "concat (map answer_delta post) = fullContent post"
    using n by (rule tag_replay_answers)
  with tail have tail': "answer_tail ts = fullContent post" by simp
  have "fullContent ts = fullContent pre @ ''</think>'' @ fullContent post"
    by (simp add: ts fullContent_def)
  then show ?thesis
    using unterminated_span_closing [of False "fullContent pre" "fullContent post"] tail'
    by simp
qed

lemma emit_replay: "emit d b = (ts, r) \<Longrightarrow> tag_replay b ts = Some r"
  by (auto simp: emit_def Let_def split: if_splits)

lemma emit_last: "emit d b = (ts, r) \<Longrightarrow> ts = [] \<or> last ts \<noteq> CloseThink"
  by (auto simp: emit_def Let_def split: if_splits)

lemma handle_line_replay:
  "handle_line dec b l = Some (ts, r) \<Longrightarrow>
   tag_replay b ts = Some r \<and> (ts = [] \<or> last ts \<noteq> CloseThink)"
  by (auto simp: handle_line_def Let_def split: if_splits option.splits
      dest: emit_replay emit_last)

lemma process_lines_replay:
  "process_lines dec b ls = (ts, r, returned) \<Longrightarrow>
   tag_replay b ts = Some r \<and> (ts = [] \<or> last ts \<noteq> CloseThink)"
proof (induction ls arbitrary: b ts r returned)
  case Nil
  then show ?case by simp
next
  case (Cons l ls)
  show ?case
  proof (cases "handle_line dec b l")
    case None
    with Cons.prems show ?thesis by simp
  next
    case (Some p)
    obtain t1 r1 where p: "p = (t1, r1)" by (cases p)
    obtain t2 r2 ret2 where rec: "process_lines dec r1 ls = (t2, r2, ret2)"
      by (cases "process_lines dec r1 ls")
    from Cons.prems Some p rec have ts: "ts = t1 @ t2" "r = r2" by auto
    from Some p have 1: "tag_replay b t1 = Some r1" "t1 = [] \<or> last t1 \<noteq> CloseThink"
      using handle_line_replay by blast+
    from rec have 2: "tag_replay r1 t2 = Some r2 \<and> (t2 = [] \<or> last t2 \<noteq> CloseThink)"
      by (rule Cons.IH)
    from 1 2 show ?thesis
      by (auto simp: ts tag_replay_append last_append)
  qed
qed

text \<open>
  C1 (amended). When the generator finishes at the natural end of the byte stream, a span
  that is still open is closed first, so the concatenation of all yielded tokens ends
  inside an unterminated reasoning span only when the answer text yielded after the last
  closing marker does so by itself; it does not when that answer text does not contain
  \<^verbatim>\<open><think>\<close>. When a read is rejected (caller cancellation included) the error is
  re-thrown, and the tokens yielded are those of the natural end without the final closing
  marker.
\<close>

theorem streamChat_end_closes_span:
  "(streamChat dec chunks fin = (ts, ReturnedAtEnd) \<longrightarrow>
      unterminated_span False (fullContent ts) = unterminated_span False (answer_tail ts)) \<and>
   (streamChat dec chunks fin = (ts, ReturnedAtEnd) \<and>
    \<not> str_includes (answer_tail ts) ''<think>'' \<longrightarrow>
      \<not> unterminated_span False (fullContent ts)) \<and>
   (streamChat dec chunks ReadDone = (ts, ReturnedAtEnd) \<longrightarrow>
      streamChat dec chunks (ReadRejected e)
        = (if ts \<noteq> [] \<and> last ts = CloseThink then butlast ts else ts, Threw e))"
proof -
  obtain t r ret where pl:
    "process_lines dec False (butlast (split_nl (concat chunks))) = (t, r, ret)"
    by (cases "process_lines dec False (butlast (split_nl (concat chunks)))")
  from pl have rp: "tag_replay False t = Some r" and la: "t = [] \<or> last t \<noteq> CloseThink"
    using process_lines_replay by blast+
  have rl: "streamChat dec chunks f =
      (if ret then (t, ReturnedAtDone)
       else (case f of
               ReadDone \<Rightarrow> (t @ (if r then [CloseThink] else []), ReturnedAtEnd)
             | ReadRejected e \<Rightarrow> (t, Threw e)))" for f
    by (simp add: streamChat_def read_loop_concat pl)
  have 1: "unterminated_span False (fullContent ts) = unterminated_span False (answer_tail ts)"
    if "streamChat dec chunks fin = (ts, ReturnedAtEnd)"
  proof -
    from that have ts: "ts = t @ (if r then [CloseThink] else [])"
      unfolding rl by (auto split: if_splits read_end.splits)
    have "tag_replay False ts = Some False"
      unfolding ts using tag_replay_append [OF rp] by simp
    then show ?thesis by (rule unterminated_span_answer_tail)
  qed
  have 2: "\<not> unterminated_span False (fullContent ts)"
    if "streamChat dec chunks fin = (ts, ReturnedAtEnd)"
      "\<not> str_includes (answer_tail ts) ''<think>''"
  proof -
    from that(2) have "unterminated_span False (answer_tail ts) = False"
      using unterminated_span_no_marker [of False "answer_tail ts"]
      by (simp add: str_includes_sublist)
    with 1 [OF that(1)] show ?thesis by simp
  qed
  have 3: "streamChat dec chunks (ReadRejected e)
        = (if ts \<noteq> [] \<and> last ts = CloseThink then butlast ts else ts, Threw e)"
    if "streamChat dec chunks ReadDone = (ts, ReturnedAtEnd)"
  proof -
    from that have ret: "\<not> ret" and ts: "ts = t @ (if r then [CloseThink] else [])"
      unfolding rl by (auto split: if_splits)
    from la have "(if ts \<noteq> [] \<and> last ts = CloseThink then butlast ts else ts) = t"
      unfolding ts by auto
    with ret show ?thesis unfolding rl by simp
  qed
  from 1 2 3 show ?thesis by blast
qed

theorem streamChat_end_closes_span_witness:
  \<open>streamChat example_dec [''data: {"choices":[{"delta":{"reasoning":"hm"}}]}\<newline>''] ReadDone
     = ([OpenThink, ReasoningText ''hm'', CloseThink], ReturnedAtEnd) \<and>
   answer_tail [OpenThink, ReasoningText ''hm'', CloseThink] = [] \<and>
   fullContent [OpenThink, ReasoningText ''hm'', CloseThink] = ''<think>hm</think>'' \<and>
   \<not> unterminated_span False (fullContent [OpenThink, ReasoningText ''hm'', CloseThink]) \<and>
   streamChat example_dec [''data: {"choices":[{"delta":{"reasoning":"hm"}}]}\<newline>'']
      (ReadRejected AbortError) = ([OpenThink, ReasoningText ''hm''], Threw AbortError) \<and>
   streamChat example_dec
      [''data: {"choices":[{"delta":{"reasoning":"a</think>b"}}]}\<newline>'',
       ''data: {"choices":[{"delta":{"content":"ok"}}]}\<newline>''] ReadDone
     = ([OpenThink, ReasoningText ''a</think>b'', CloseThink, AnswerText ''ok''],
        ReturnedAtEnd) \<and>
   answer_tail [OpenThink, ReasoningText ''a</think>b'', CloseThink, AnswerText ''ok'']
     = ''ok'' \<and>
   \<not> unterminated_span False
     (fullContent [OpenThink, ReasoningText ''a</think>b'', CloseThink, AnswerText ''ok''])\<close>
proof -
  let ?cs = \<open>[''data: {"choices":[{"delta":{"reasoning":"hm"}}]}\<newline>'']\<close>
  let ?ts = "[OpenThink, ReasoningText ''hm'', CloseThink]"
  let ?ds = \<open>[''data: {"choices":[{"delta":{"reasoning":"a</think>b"}}]}\<newline>'',
       ''data: {"choices":[{"delta":{"content":"ok"}}]}\<newline>'']\<close>
  let ?us = "[OpenThink, ReasoningText ''a</think>b'', CloseThink, AnswerText ''ok'']"
  have a: "streamChat example_dec ?cs ReadDone = (?ts, ReturnedAtEnd)"
    by code_simp
  have n: "answer_tail ?ts = []" by code_simp
  have n': "\<not> str_includes (answer_tail ?ts) ''<think>''" by code_simp
  have f: "fullContent ?ts = ''<think>hm</think>''" by code_simp
  have b: "streamChat example_dec ?ds ReadDone = (?us, ReturnedAtEnd)"
    by code_simp
  have m: "answer_tail ?us = ''ok''" by code_simp
  have m': "\<not> str_includes (answer_tail ?us) ''<think>''" by code_simp
  note t = streamChat_end_closes_span [of example_dec ?cs ReadDone ?ts AbortError]
  note u = streamChat_end_closes_span [of example_dec ?ds ReadDone ?us AbortError]
  from t a n' have 1: "\<not> unterminated_span False (fullContent ?ts)" by blast
  from t a have 2: "streamChat example_dec ?cs (ReadRejected AbortError)
      = ([OpenThink, ReasoningText ''hm''], Threw AbortError)" by simp
  from u b m' have 3: "\<not> unterminated_span False (fullContent ?us)" by blast
  from a n f 1 2 b m 3 show ?thesis by blast
qed

text \<open>
  C1 as stated fails in three ways. After the \<^verbatim>\<open>[DONE]\<close> record, and after a cancelled
  read, the generator ends with the reasoning span open and no closing marker. And at the
  natural end of a stream whose last answer delta holds the text \<^verbatim>\<open><think>\<close>, the
  concatenation ends inside a span that nothing closes, and the parser takes the rest of
  the answer for reasoning.
\<close>

theorem streamChat_done_and_abort_leave_span_open:
  \<open>streamChat example_dec
      [''data: {"choices":[{"delta":{"reasoning":"hm"}}]}\<newline>'', ''data: [DONE]\<newline>''] ReadDone
     = ([OpenThink, ReasoningText ''hm''], ReturnedAtDone) \<and>
   streamChat example_dec [''data: {"choices":[{"delta":{"reasoning":"hm"}}]}\<newline>'']
      (ReadRejected AbortError) = ([OpenThink, ReasoningText ''hm''], Threw AbortError) \<and>
   fullContent [OpenThink, ReasoningText ''hm''] = ''<think>hm'' \<and>
   unterminated_span False ''<think>hm'' \<and>
   streamChat example_dec [''data: {"choices":[{"delta":{"content":"see <think> tags"}}]}\<newline>'']
      ReadDone = ([AnswerText ''see <think> tags''], ReturnedAtEnd) \<and>
   answer_tail [AnswerText ''see <think> tags''] = ''see <think> tags'' \<and>
   fullContent [AnswerText ''see <think> tags''] = ''see <think> tags'' \<and>
   unterminated_span False ''see <think> tags'' \<and>
   thought (parse example_hostname ''see <think> tags'' False) = ''tags''\<close>
  by code_simp

end
